theory Spec2Isabelle
  imports Main "HOL-Library.Sublist" "HOL-Library.Multiset"
begin

section \<open>Data model of the content server\<close>

text \<open>
  Go strings are byte sequences, so a string is a \<^typ>\<open>char list\<close> (one \<^typ>\<open>char\<close> per
  byte). \<open>template.HTML\<close> is a named string type and is modelled by \<^typ>\<open>string\<close> too.
  Go's \<open>int\<close> is taken to be 64 bits wide; \<open>Order\<close> values are kept as \<^typ>\<open>int\<close> and
  the only place where the width matters (\<open>strconv.Atoi\<close>) checks the range explicitly.
\<close>

record BlogPost =
  Title :: string
  Slug :: string
  Parent :: string
  Content :: string
  Description :: string
  Order :: int
  Headers :: "string list"
  MetaDescription :: string
  MetaPropertyTitle :: string
  MetaPropertyDescription :: string
  MetaOgURL :: string

record Category =
  Name :: string
  Pages :: "BlogPost list"
  Order :: int

record SideBar =
  Categories :: "Category list"

text \<open>
  The errors the program can return: the one it creates itself in \<open>parseMarkdownFile\<close>
  and the ones handed up from \<open>os.ReadDir\<close> and \<open>os.ReadFile\<close>.
\<close>

datatype error =
    InvalidMarkdownFormat
  | ReadDirError
  | ReadFileError
  | IsADirectory

text \<open>The zero value \<open>BlogPost{}\<close>.\<close>

definition BlogPost_zero :: BlogPost where
  "BlogPost_zero =
     \<lparr>Title = [], Slug = [], Parent = [], Content = [], Description = [],
      BlogPost.Order = 0, Headers = [], MetaDescription = [], MetaPropertyTitle = [],
      MetaPropertyDescription = [], MetaOgURL = []\<rparr>"

section \<open>Byte classes and the string functions of the standard library\<close>

definition byte :: "char \<Rightarrow> nat" where
  "byte c = of_char c"

definition isUpperASCII :: "char \<Rightarrow> bool" where
  "isUpperASCII c \<longleftrightarrow> 65 \<le> byte c \<and> byte c \<le> 90"

definition isLowerASCII :: "char \<Rightarrow> bool" where
  "isLowerASCII c \<longleftrightarrow> 97 \<le> byte c \<and> byte c \<le> 122"

definition isDigitASCII :: "char \<Rightarrow> bool" where
  "isDigitASCII c \<longleftrightarrow> 48 \<le> byte c \<and> byte c \<le> 57"

text \<open>The regular expression class \<open>\w\<close> of Go's regexp package: \<open>[0-9A-Za-z_]\<close>.\<close>

definition isWordChar :: "char \<Rightarrow> bool" where
  "isWordChar c \<longleftrightarrow> isDigitASCII c \<or> isUpperASCII c \<or> isLowerASCII c \<or> c = CHR ''_''"

text \<open>The class \<open>\s\<close> of Go's regexp package: \<open>[\t\n\f\r ]\<close>.\<close>

definition isSpaceChar :: "char \<Rightarrow> bool" where
  "isSpaceChar c \<longleftrightarrow> c = CHR 0x09 \<or> c = CHR 0x0A \<or> c = CHR 0x0C \<or> c = CHR 0x0D \<or> c = CHR '' ''"

text \<open>The complement of the class \<open>[^a-z0-9\-]\<close> used by \<open>sanitizeHeaderForID\<close>.\<close>

definition isIDChar :: "char \<Rightarrow> bool" where
  "isIDChar c \<longleftrightarrow> isLowerASCII c \<or> isDigitASCII c \<or> c = CHR ''-''"

definition isNewline :: "char \<Rightarrow> bool" where
  "isNewline c \<longleftrightarrow> c = CHR 0x0A"

definition notNewline :: "char \<Rightarrow> bool" where
  "notNewline c \<longleftrightarrow> c \<noteq> CHR 0x0A"

text \<open>
  \<open>strings.ToLower\<close>. The library first scans the bytes: when all of them are below
  \<open>utf8.RuneSelf\<close> (128) it lowers the bytes \<open>'A'..'Z'\<close> by adding \<open>'a' - 'A'\<close> (and returns
  the string itself when there is no such byte); otherwise it returns
  \<open>strings.Map(unicode.ToLower, s)\<close>, which depends on the Unicode case tables. Those
  tables are not part of this program, so that branch is the parameter \<open>unicodeLower\<close>.
\<close>

definition lowerByte :: "char \<Rightarrow> char" where
  "lowerByte c = (if isUpperASCII c then char_of (byte c + 32) else c)"

definition strings_ToLower :: "(string \<Rightarrow> string) \<Rightarrow> string \<Rightarrow> string" where
  "strings_ToLower unicodeLower s =
     (if list_all (\<lambda>c. byte c < 128) s
      then (if list_ex isUpperASCII s then map lowerByte s else s)
      else unicodeLower s)"

text \<open>
  \<open>strings.ReplaceAll s old new\<close> for a non-empty \<open>old\<close>: the non-overlapping occurrences
  of \<open>old\<close> are replaced from left to right. (The program only calls it with the one-byte
  patterns \<open>"\r"\<close> and \<open>" "\<close>; for an empty \<open>old\<close> the model leaves the string unchanged.)
\<close>

function strings_ReplaceAll :: "string \<Rightarrow> string \<Rightarrow> string \<Rightarrow> string" where
  "strings_ReplaceAll [] old new = []"
| "strings_ReplaceAll (c # cs) old new =
     (if old \<noteq> [] \<and> prefix old (c # cs)
      then new @ strings_ReplaceAll (drop (length old) (c # cs)) old new
      else c # strings_ReplaceAll cs old new)"
  by pat_completeness auto
termination
proof (relation "measure (\<lambda>(s, old, new). length s)", goal_cases)
  case 1
  show ?case by simp
next
  case (2 c cs old new)
  then show ?case by (cases old) auto
next
  case (3 c cs old new)
  show ?case by simp
qed

text \<open>\<open>strings.HasSuffix\<close>, as the library writes it.\<close>

definition strings_HasSuffix :: "string \<Rightarrow> string \<Rightarrow> bool" where
  "strings_HasSuffix s suf \<longleftrightarrow>
     length suf \<le> length s \<and> drop (length s - length suf) s = suf"

section \<open>Heading links\<close>

text \<open>
  \<open>sanitizeHeaderForID\<close>: lower-case, replace spaces by hyphens, delete what the
  expression \<open>[^a-z0-9\-]\<close> matches. The regexp package reads the string rune by rune;
  a rune outside ASCII (or an invalid byte) consists of bytes from 128 on only, none of
  which is in the class, so deleting the matching runes is deleting the bytes that are
  not in \<open>[a-z0-9\-]\<close>.
\<close>

definition sanitizeHeaderForID :: "(string \<Rightarrow> string) \<Rightarrow> string \<Rightarrow> string" where
  "sanitizeHeaderForID unicodeLower header =
     (let header1 = strings_ToLower unicodeLower header;
          header2 = strings_ReplaceAll header1 '' '' ''-''
      in filter isIDChar header2)"

text \<open>The link \<open>fmt.Sprintf(`<li><a href="#%s">%s</a></li>`, sanitizedHeader, header)\<close>.\<close>

definition sidebarLink :: "string \<Rightarrow> string \<Rightarrow> string" where
  "sidebarLink sanitizedHeader header =
     ''<li><a href=\"#'' @ sanitizedHeader @ ''\">'' @ header @ ''</a></li>''"

text \<open>The loop of \<open>createSidebarLinks\<close>, with \<open>linksHTML\<close> as the accumulator.\<close>

fun createSidebarLinks_loop :: "(string \<Rightarrow> string) \<Rightarrow> string list \<Rightarrow> string \<Rightarrow> string" where
  "createSidebarLinks_loop unicodeLower [] linksHTML = linksHTML"
| "createSidebarLinks_loop unicodeLower (header # headers) linksHTML =
     createSidebarLinks_loop unicodeLower headers
       (linksHTML @ sidebarLink (sanitizeHeaderForID unicodeLower header) header)"

definition createSidebarLinks :: "(string \<Rightarrow> string) \<Rightarrow> string list \<Rightarrow> string" where
  "createSidebarLinks unicodeLower headers = createSidebarLinks_loop unicodeLower headers []"

section \<open>Front matter\<close>

text \<open>
  \<open>strings.Index\<close>: the position of the first occurrence of \<open>sep\<close>, \<open>None\<close> for Go's \<open>-1\<close>.
\<close>

fun strings_Index :: "string \<Rightarrow> string \<Rightarrow> nat option" where
  "strings_Index [] sep = (if sep = [] then Some 0 else None)"
| "strings_Index (c # cs) sep =
     (if prefix sep (c # cs) then Some 0 else map_option Suc (strings_Index cs sep))"

text \<open>
  \<open>strings.SplitN(s, sep, 2)\<close> for a non-empty separator: the library looks for the first
  occurrence of \<open>sep\<close>; without one the result is the one-element slice \<open>[s]\<close>, otherwise
  the text before it and the text after it.
\<close>

definition strings_SplitN2 :: "string \<Rightarrow> string \<Rightarrow> string list" where
  "strings_SplitN2 s sep =
     (case strings_Index s sep of
        None \<Rightarrow> [s]
      | Some m \<Rightarrow> [take m s, drop (m + length sep) s])"

text \<open>
  The first lines of \<open>parseMarkdownFile\<close>: the split at \<open>---\<close>, the length check, and the
  removal of carriage returns from both sections. \<open>None\<close> stands for the error return.
\<close>

definition splitSections :: "string \<Rightarrow> (string \<times> string) option" where
  "splitSections content =
     (let sections = strings_SplitN2 content ''---''
      in if length sections < 2 then None
         else Some (strings_ReplaceAll (sections ! 0) [CHR 0x0D] [],
                    strings_ReplaceAll (sections ! 1) [CHR 0x0D] []))"

subsection \<open>The metadata expression\<close>

text \<open>
  After a match, or when the expression does not match at a line start, the search of
  a multi-line expression anchored with \<open>^\<close> goes on behind the next line feed.
\<close>

definition nextLineStart :: "string \<Rightarrow> string option" where
  "nextLineStart s = (case dropWhile notNewline s of [] \<Rightarrow> None | c # t \<Rightarrow> Some t)"

text \<open>
  The tail \<open>\s*(.+)\<close> of the metadata expression, read at the text behind the colon.
  \<open>\s*\<close> is greedy and \<open>\s\<close> contains the line feed, so the white space is skipped across
  line ends. \<open>.+\<close> needs one byte that is not a line feed: if the white space reaches the
  end of the text, the engine gives white space back until \<open>.+\<close> can start, which is at
  the last byte that is not a line feed. The result is what \<open>\s*\<close> matched and the text
  where \<open>.+\<close> starts; \<open>None\<close> when there is no match.
\<close>

definition valueStart :: "string \<Rightarrow> (string \<times> string) option" where
  "valueStart rest =
     (let t = dropWhile isSpaceChar rest
      in if t \<noteq> [] then Some (takeWhile isSpaceChar rest, t)
         else (let k = length rest - length (takeWhile isNewline (rev rest))
               in if k = 0 then None else Some (take (k - 1) rest, drop (k - 1) rest)))"

text \<open>
  One attempt of \<open>(?m)^(\w+):\s*(.+)\<close> at a line start. \<open>\w+\<close> can only end where the
  word bytes end, since a colon has to follow. The result is the submatch slice
  \<open>[match, key, value]\<close> and the text behind the match.
\<close>

definition metaMatchAt :: "string \<Rightarrow> (string list \<times> string) option" where
  "metaMatchAt s =
     (let key = takeWhile isWordChar s
      in if key = [] then None
         else (case dropWhile isWordChar s of
                 [] \<Rightarrow> None
               | c # rest \<Rightarrow>
                   if c = CHR '':'' then
                     (case valueStart rest of
                        None \<Rightarrow> None
                      | Some (ws, t) \<Rightarrow>
                          Some ([key @ '':'' @ ws @ takeWhile notNewline t,
                                 key, takeWhile notNewline t],
                                dropWhile notNewline t))
                   else None))"

lemma nextLineStart_shorter: "nextLineStart s = Some t \<Longrightarrow> length t < length s"
proof -
  assume a: "nextLineStart s = Some t"
  then obtain c where "dropWhile notNewline s = c # t"
    by (auto simp: nextLineStart_def split: list.splits)
  then have "length (dropWhile notNewline s) = Suc (length t)" by simp
  moreover have "length (dropWhile notNewline s) \<le> length s"
    by (rule length_dropWhile_le)
  ultimately show ?thesis by simp
qed

lemma valueStart_shorter: "valueStart rest = Some (ws, t) \<Longrightarrow> length t \<le> length rest"
  by (auto simp: valueStart_def Let_def length_dropWhile_le split: if_splits)

lemma metaMatchAt_shorter:
  assumes "metaMatchAt s = Some (m, r)"
  shows "length r \<le> length s"
proof -
  from assms obtain c rest ws t where
    d: "dropWhile isWordChar s = c # rest" and v: "valueStart rest = Some (ws, t)"
    and r: "r = dropWhile notNewline t"
    by (auto simp: metaMatchAt_def Let_def split: if_splits list.splits option.splits)
  have "length r \<le> length t" unfolding r by (rule length_dropWhile_le)
  also have "\<dots> \<le> length rest" using v by (rule valueStart_shorter)
  also have "\<dots> \<le> length (dropWhile isWordChar s)" using d by simp
  also have "\<dots> \<le> length s" by (rule length_dropWhile_le)
  finally show ?thesis .
qed

text \<open>
  \<open>re.FindAllStringSubmatch(metadata, -1)\<close> for the metadata expression: the successive
  non-overlapping matches, from left to right.
\<close>

function findAllMeta :: "string \<Rightarrow> string list list" where
  "findAllMeta s =
     (case metaMatchAt s of
        Some (m, r) \<Rightarrow>
          m # (case nextLineStart r of None \<Rightarrow> [] | Some t \<Rightarrow> findAllMeta t)
      | None \<Rightarrow>
          (case nextLineStart s of None \<Rightarrow> [] | Some t \<Rightarrow> findAllMeta t))"
  by pat_completeness auto
termination
proof (relation "measure length", goal_cases)
  case 1
  show ?case by simp
next
  case 2
  then show ?case by (auto dest!: nextLineStart_shorter)
next
  case 3
  then show ?case by (auto dest!: metaMatchAt_shorter nextLineStart_shorter)
qed

declare findAllMeta.simps [simp del]

subsection \<open>\<open>strconv.Atoi\<close>\<close>

text \<open>
  \<open>strconv.Atoi\<close> with a 64-bit \<open>int\<close>: an optional sign followed by at least one decimal
  digit and nothing else, and the value must lie in the range of \<open>int\<close>. \<open>None\<close> stands
  for a non-nil error (syntax or range).
\<close>

definition strconv_Atoi :: "string \<Rightarrow> int option" where
  "strconv_Atoi s =
     (let neg = (s \<noteq> [] \<and> hd s = CHR ''-'');
          digits = (if s \<noteq> [] \<and> (hd s = CHR ''-'' \<or> hd s = CHR ''+'') then tl s else s)
      in if digits = [] then None
         else if list_ex (\<lambda>c. byte c < 48 \<or> 57 < byte c) digits then None
         else (let n = foldl (\<lambda>a c. 10 * a + int (byte c - 48)) 0 digits;
                   v = (if neg then - n else n)
               in if - (2 ^ 63) \<le> v \<and> v \<le> 2 ^ 63 - 1 then Some v else None))"

subsection \<open>\<open>parseMetaData\<close>\<close>

text \<open>The loop that fills \<open>metaDataMap\<close>; a later match overwrites an earlier one.\<close>

fun fillMetaDataMap :: "string list list \<Rightarrow> (string \<rightharpoonup> string) \<Rightarrow> (string \<rightharpoonup> string)" where
  "fillMetaDataMap [] metaDataMap = metaDataMap"
| "fillMetaDataMap (match # matches) metaDataMap =
     fillMetaDataMap matches
       (if length match = 3 then metaDataMap(match ! 1 \<mapsto> match ! 2) else metaDataMap)"

definition metaDataMap_of :: "string \<Rightarrow> (string \<rightharpoonup> string)" where
  "metaDataMap_of metadata = fillMetaDataMap (findAllMeta metadata) Map.empty"

text \<open>Indexing a Go map with a missing key gives the zero value, the empty string.\<close>

definition mapIndex :: "(string \<rightharpoonup> string) \<Rightarrow> string \<Rightarrow> string" where
  "mapIndex m k = (case m k of None \<Rightarrow> [] | Some v \<Rightarrow> v)"

text \<open>
  \<open>parseMetaData\<close> returns nine values, in the order title, slug, parent, description,
  order, metaDescription, metaPropertyTitle, metaPropertyDescription, metaOgURL.
\<close>

definition parseMetaData ::
  "string \<Rightarrow> string \<times> string \<times> string \<times> string \<times> int \<times> string \<times> string \<times> string \<times> string" where
  "parseMetaData metadata =
     (let metaDataMap = metaDataMap_of metadata;
          title = mapIndex metaDataMap ''Title'';
          slug = mapIndex metaDataMap ''Slug'';
          parent = mapIndex metaDataMap ''Parent'';
          description = mapIndex metaDataMap ''Description'';
          orderStr = mapIndex metaDataMap ''Order'';
          metaDescriptionStr = mapIndex metaDataMap ''MetaDescription'';
          metaPropertyTitleStr = mapIndex metaDataMap ''MetaPropertyTitle'';
          metaPropertyDescriptionStr = mapIndex metaDataMap ''MetaPropertyDescription'';
          metaOgURLStr = mapIndex metaDataMap ''MetaOgURL'';
          order = (case strconv_Atoi orderStr of None \<Rightarrow> 9999 | Some n \<Rightarrow> n)
      in (title, slug, parent, description, order, metaDescriptionStr,
          metaPropertyTitleStr, metaPropertyDescriptionStr, metaOgURLStr))"

subsection \<open>\<open>extractHeaders\<close>\<close>

text \<open>
  One attempt of \<open>(?m)^##\s+(.*)\<close> at a line start: two hash signs, at least one white
  space byte (greedy, across line ends), and the rest of the line, which may be empty.
  The result is the submatch slice \<open>[match, header]\<close> and the text behind the match.
\<close>

definition headerMatchAt :: "string \<Rightarrow> (string list \<times> string) option" where
  "headerMatchAt s =
     (if prefix ''##'' s \<and> takeWhile isSpaceChar (drop 2 s) \<noteq> []
      then (let ws = takeWhile isSpaceChar (drop 2 s);
                t = dropWhile isSpaceChar (drop 2 s)
            in Some ([''##'' @ ws @ takeWhile notNewline t, takeWhile notNewline t],
                     dropWhile notNewline t))
      else None)"

lemma headerMatchAt_shorter:
  assumes "headerMatchAt s = Some (m, r)"
  shows "length r \<le> length s"
proof -
  from assms have r: "r = dropWhile notNewline (dropWhile isSpaceChar (drop 2 s))"
    by (auto simp: headerMatchAt_def Let_def split: if_splits)
  have "length r \<le> length (dropWhile isSpaceChar (drop 2 s))"
    unfolding r by (rule length_dropWhile_le)
  also have "\<dots> \<le> length (drop 2 s)" by (rule length_dropWhile_le)
  also have "\<dots> \<le> length s" by simp
  finally show ?thesis .
qed

function findAllHeaders :: "string \<Rightarrow> string list list" where
  "findAllHeaders s =
     (case headerMatchAt s of
        Some (m, r) \<Rightarrow>
          m # (case nextLineStart r of None \<Rightarrow> [] | Some t \<Rightarrow> findAllHeaders t)
      | None \<Rightarrow>
          (case nextLineStart s of None \<Rightarrow> [] | Some t \<Rightarrow> findAllHeaders t))"
  by pat_completeness auto
termination
proof (relation "measure length", goal_cases)
  case 1
  show ?case by simp
next
  case 2
  then show ?case by (auto dest!: nextLineStart_shorter)
next
  case 3
  then show ?case by (auto dest!: headerMatchAt_shorter nextLineStart_shorter)
qed

declare findAllHeaders.simps [simp del]

definition extractHeaders :: "string \<Rightarrow> string list" where
  "extractHeaders content = map (\<lambda>match. match ! 1) (findAllHeaders content)"

subsection \<open>\<open>parseMarkdownFile\<close>\<close>

text \<open>
  The markdown renderer \<open>mdToHTML\<close> belongs to an external library and is a parameter.
  The function returns a pair as in Go: the post and the error (\<open>None\<close> for \<open>nil\<close>).
\<close>

definition parseMarkdownFile :: "(string \<Rightarrow> string) \<Rightarrow> string \<Rightarrow> BlogPost \<times> error option" where
  "parseMarkdownFile mdToHTML content =
     (case splitSections content of
        None \<Rightarrow> (BlogPost_zero, Some InvalidMarkdownFormat)
      | Some (metadata, mdContent) \<Rightarrow>
          (case parseMetaData metadata of
             (title, slug, parent, description, order, metaDescriptionStr,
              metaPropertyTitleStr, metaPropertyDescriptionStr, metaOgURLStr) \<Rightarrow>
               (\<lparr>Title = title, Slug = slug, Parent = parent,
                 Content = mdToHTML mdContent, Description = description,
                 BlogPost.Order = order, Headers = extractHeaders mdContent,
                 MetaDescription = metaDescriptionStr,
                 MetaPropertyTitle = metaPropertyTitleStr,
                 MetaPropertyDescription = metaPropertyDescriptionStr,
                 MetaOgURL = metaOgURLStr\<rparr>, None)))"

section \<open>Loading the directory\<close>

text \<open>
  The operating system as the program sees it: \<open>os.ReadDir\<close> gives the entries of a
  directory (of which the program reads the name only) or an error, \<open>os.ReadFile\<close> gives
  the bytes of the file at a path or an error. Both are parameters of the model.
\<close>

record DirEntry =
  EntryName :: string
  IsDir :: bool

record OS =
  ReadDir :: "string \<Rightarrow> error + DirEntry list"
  ReadFile :: "string \<Rightarrow> error + string"

text \<open>
  The loop of \<open>loadMarkdownPosts\<close> over the entries, with the slice \<open>posts\<close> as the
  accumulator. The results are pairs as in Go; every error return carries the \<open>nil\<close>
  slice.
\<close>

fun loadMarkdownPosts_loop ::
  "(string \<Rightarrow> string) \<Rightarrow> OS \<Rightarrow> string \<Rightarrow> DirEntry list \<Rightarrow> BlogPost list
     \<Rightarrow> BlogPost list \<times> error option" where
  "loadMarkdownPosts_loop mdToHTML os dir [] posts = (posts, None)"
| "loadMarkdownPosts_loop mdToHTML os dir (file # files) posts =
     (if strings_HasSuffix (EntryName file) ''.md''
      then (case ReadFile os (dir @ ''/'' @ EntryName file) of
              Inl err \<Rightarrow> ([], Some err)
            | Inr content \<Rightarrow>
                (case parseMarkdownFile mdToHTML content of
                   (post, Some err) \<Rightarrow> ([], Some err)
                 | (post, None) \<Rightarrow>
                     loadMarkdownPosts_loop mdToHTML os dir files (posts @ [post])))
      else loadMarkdownPosts_loop mdToHTML os dir files posts)"

definition loadMarkdownPosts ::
  "(string \<Rightarrow> string) \<Rightarrow> OS \<Rightarrow> string \<Rightarrow> BlogPost list \<times> error option" where
  "loadMarkdownPosts mdToHTML os dir =
     (case ReadDir os dir of
        Inl err \<Rightarrow> ([], Some err)
      | Inr files \<Rightarrow> loadMarkdownPosts_loop mdToHTML os dir files [])"

section \<open>The sidebar\<close>

text \<open>
  The grouping loop of \<open>loadSidebarData\<close>. The map holds pointers to categories that are
  only reached through the map, so it is modelled as a map to category values.
\<close>

fun groupPosts :: "BlogPost list \<Rightarrow> (string \<rightharpoonup> Category) \<Rightarrow> (string \<rightharpoonup> Category)" where
  "groupPosts [] categoriesMap = categoriesMap"
| "groupPosts (post # posts) categoriesMap =
     groupPosts posts
       (if Parent post \<noteq> []
        then (case categoriesMap (Parent post) of
                None \<Rightarrow>
                  categoriesMap(Parent post \<mapsto>
                    \<lparr>Name = Parent post, Pages = [post], Category.Order = BlogPost.Order post\<rparr>)
              | Some cat \<Rightarrow>
                  categoriesMap(Parent post \<mapsto> cat\<lparr>Pages := Pages cat @ [post]\<rparr>))
        else categoriesMap)"

definition categoriesMap_of :: "BlogPost list \<Rightarrow> (string \<rightharpoonup> Category)" where
  "categoriesMap_of posts = groupPosts posts Map.empty"

text \<open>
  \<open>for _, cat := range categoriesMap\<close> visits every key of the map once, in an order the
  language leaves open. \<open>rangeOrder m keys\<close> says that \<open>keys\<close> is such an order, and
  \<open>rangeValues\<close> gives the slice the loop then appends.
\<close>

definition rangeOrder :: "(string \<rightharpoonup> Category) \<Rightarrow> string list \<Rightarrow> bool" where
  "rangeOrder m keys \<longleftrightarrow> distinct keys \<and> set keys = dom m"

definition rangeValues :: "(string \<rightharpoonup> Category) \<Rightarrow> string list \<Rightarrow> Category list" where
  "rangeValues m keys = List.map_filter m keys"

text \<open>The comparison handed to \<open>sort.Slice\<close>.\<close>

definition lessOrder :: "Category \<Rightarrow> Category \<Rightarrow> bool" where
  "lessOrder a b \<longleftrightarrow> Category.Order a < Category.Order b"

text \<open>
  \<open>sort.Slice\<close> rearranges the slice so that no element is less than an element before
  it; the library does not promise to keep equal elements in their order.
  \<open>sortSliceResult lessFn xs ys\<close> says that \<open>ys\<close> is a possible result for the slice \<open>xs\<close>.
\<close>

definition sortSliceResult :: "('a \<Rightarrow> 'a \<Rightarrow> bool) \<Rightarrow> 'a list \<Rightarrow> 'a list \<Rightarrow> bool" where
  "sortSliceResult lessFn xs ys \<longleftrightarrow>
     mset ys = mset xs \<and> sorted_wrt (\<lambda>a b. \<not> lessFn b a) ys"

text \<open>
  The categories \<open>loadSidebarData\<close> can return for the loaded posts, and the function
  itself as a relation between its input and its possible results.
\<close>

definition sidebarCategories :: "BlogPost list \<Rightarrow> string list \<Rightarrow> Category list \<Rightarrow> bool" where
  "sidebarCategories posts keys cats \<longleftrightarrow>
     rangeOrder (categoriesMap_of posts) keys \<and>
     sortSliceResult lessOrder (rangeValues (categoriesMap_of posts) keys) cats"

inductive loadSidebarData ::
  "(string \<Rightarrow> string) \<Rightarrow> OS \<Rightarrow> string \<Rightarrow> SideBar \<times> error option \<Rightarrow> bool" where
  load_failed:
    "loadMarkdownPosts mdToHTML os dir = (posts, Some err)
     \<Longrightarrow> loadSidebarData mdToHTML os dir (\<lparr>Categories = []\<rparr>, Some err)"
| load_done:
    "loadMarkdownPosts mdToHTML os dir = (posts, None)
     \<Longrightarrow> sidebarCategories posts keys cats
     \<Longrightarrow> loadSidebarData mdToHTML os dir (\<lparr>Categories = cats\<rparr>, None)"

section \<open>The line-oriented reading of the metadata block\<close>

text \<open>
  The specification describes the metadata expression line by line. The definitions
  of this section follow its words, to be compared with \<open>findAllMeta\<close> and
  \<open>metaDataMap_of\<close>, which follow the program.
\<close>

text \<open>The lines of a text: the pieces between the line feeds.\<close>

function spec_lines :: "string \<Rightarrow> string list" where
  "spec_lines s =
     (case dropWhile notNewline s of
        [] \<Rightarrow> [s]
      | c # rest \<Rightarrow> takeWhile notNewline s # spec_lines rest)"
  by pat_completeness auto
termination
proof (relation "measure length", goal_cases)
  case 1
  show ?case by simp
next
  case (2 s c rest)
  have "length (dropWhile notNewline s) \<le> length s" by (rule length_dropWhile_le)
  with 2 show ?case by simp
qed

declare spec_lines.simps [simp del]

text \<open>
  A line that begins with word characters followed by a colon, and the entry of a
  line: the key is the text before the colon, the value is the rest of the line
  without its leading white space, which must not be empty.
\<close>

definition spec_keyLine :: "string \<Rightarrow> bool" where
  "spec_keyLine line =
     (case dropWhile isWordChar line of
        [] \<Rightarrow> False
      | c # rest \<Rightarrow> takeWhile isWordChar line \<noteq> [] \<and> c = CHR '':'')"

definition spec_lineEntry :: "string \<Rightarrow> (string \<times> string) option" where
  "spec_lineEntry line =
     (case dropWhile isWordChar line of
        [] \<Rightarrow> None
      | c # rest \<Rightarrow>
          if takeWhile isWordChar line \<noteq> [] \<and> c = CHR '':'' \<and> dropWhile isSpaceChar rest \<noteq> []
          then Some (takeWhile isWordChar line, dropWhile isSpaceChar rest)
          else None)"

definition spec_lineEntries :: "string \<Rightarrow> (string \<times> string) list" where
  "spec_lineEntries metadata = List.map_filter spec_lineEntry (spec_lines metadata)"

text \<open>
  The metadata blocks in which every line that begins with a key and a colon also has
  a value on the same line.
\<close>

definition keyLinesHaveValues :: "string \<Rightarrow> bool" where
  "keyLinesHaveValues metadata =
     list_all (\<lambda>line. spec_keyLine line = (spec_lineEntry line \<noteq> None)) (spec_lines metadata)"

section \<open>Example inputs\<close>

text \<open>
  A directory with a well-formed document and the malformed document of the
  specification, which has no delimiter.
\<close>

definition os_malformed :: OS where
  "os_malformed =
     \<lparr>ReadDir = (\<lambda>d. if d = ''./markdown''
                       then Inr [\<lparr>EntryName = ''a.md'', IsDir = False\<rparr>,
                                 \<lparr>EntryName = ''bad.md'', IsDir = False\<rparr>]
                       else Inl ReadDirError),
      ReadFile = (\<lambda>p. if p = ''./markdown/a.md'' then Inr ''Title: A\<newline>---\<newline>text''
                        else if p = ''./markdown/bad.md''
                        then Inr ''Title: X\<newline>No delimiter here''
                        else Inl ReadFileError)\<rparr>"

text \<open>
  A directory with two documents, a text file, a subdirectory and a backup file; of
  the paths only the two documents can be read as files.
\<close>

definition mixed_entries :: "DirEntry list" where
  "mixed_entries =
     [\<lparr>EntryName = ''a.md'', IsDir = False\<rparr>,
      \<lparr>EntryName = ''drafts'', IsDir = True\<rparr>,
      \<lparr>EntryName = ''notes.txt'', IsDir = False\<rparr>,
      \<lparr>EntryName = ''b.md'', IsDir = False\<rparr>,
      \<lparr>EntryName = ''b.md.bak'', IsDir = False\<rparr>]"

definition os_mixed :: OS where
  "os_mixed =
     \<lparr>ReadDir = (\<lambda>d. if d = ''./markdown'' then Inr mixed_entries else Inl ReadDirError),
      ReadFile = (\<lambda>p. if p = ''./markdown/a.md'' then Inr ''Title: A\<newline>---\<newline>text''
                        else if p = ''./markdown/b.md'' then Inr ''Title: B\<newline>---\<newline>more''
                        else if p = ''./markdown/drafts'' then Inl IsADirectory
                        else Inl ReadFileError)\<rparr>"

text \<open>A post with the given title, parent category and order, and its one-page category.\<close>

definition page :: "string \<Rightarrow> string \<Rightarrow> int \<Rightarrow> BlogPost" where
  "page title parent order = BlogPost_zero\<lparr>Title := title, Parent := parent, BlogPost.Order := order\<rparr>"

definition categoryOf :: "BlogPost \<Rightarrow> Category" where
  "categoryOf p = \<lparr>Name = Parent p, Pages = [p], Category.Order = BlogPost.Order p\<rparr>"

text \<open>Two pages of the category \<open>Guides\<close> with different ranks.\<close>

definition posts_guides :: "BlogPost list" where
  "posts_guides = [page ''P1'' ''Guides'' 2, page ''P2'' ''Guides'' 5]"

text \<open>Three categories: \<open>A\<close> with rank 5 is found first, then \<open>B\<close> with rank 1, then \<open>C\<close> with rank 5.\<close>

definition posts_abc :: "BlogPost list" where
  "posts_abc = [page ''a'' ''A'' 5, page ''b'' ''B'' 1, page ''c'' ''C'' 5]"

text \<open>
  A directory whose three documents load as \<open>posts_abc\<close> (with the identity as
  renderer: the bodies are empty).
\<close>

definition os_abc :: OS where
  "os_abc =
     \<lparr>ReadDir = (\<lambda>d. if d = ''./markdown''
                       then Inr [\<lparr>EntryName = ''a.md'', IsDir = False\<rparr>,
                                 \<lparr>EntryName = ''b.md'', IsDir = False\<rparr>,
                                 \<lparr>EntryName = ''c.md'', IsDir = False\<rparr>]
                       else Inl ReadDirError),
      ReadFile = (\<lambda>p. if p = ''./markdown/a.md''
                        then Inr ''Title: a\<newline>Parent: A\<newline>Order: 5\<newline>---''
                        else if p = ''./markdown/b.md''
                        then Inr ''Title: b\<newline>Parent: B\<newline>Order: 1\<newline>---''
                        else if p = ''./markdown/c.md''
                        then Inr ''Title: c\<newline>Parent: C\<newline>Order: 5\<newline>---''
                        else Inl ReadFileError)\<rparr>"

text \<open>
  A directory with a document without \<open>Order\<close> line and a document with the explicit
  rank 10000.
\<close>

definition os_late :: OS where
  "os_late =
     \<lparr>ReadDir = (\<lambda>d. if d = ''./markdown''
                       then Inr [\<lparr>EntryName = ''a.md'', IsDir = False\<rparr>,
                                 \<lparr>EntryName = ''b.md'', IsDir = False\<rparr>]
                       else Inl ReadDirError),
      ReadFile = (\<lambda>p. if p = ''./markdown/a.md''
                        then Inr ''Title: a\<newline>Parent: A\<newline>---''
                        else if p = ''./markdown/b.md''
                        then Inr ''Title: b\<newline>Parent: B\<newline>Order: 10000\<newline>---''
                        else Inl ReadFileError)\<rparr>"

definition posts_late :: "BlogPost list" where
  "posts_late = [page ''a'' ''A'' 9999, page ''b'' ''B'' 10000]"

text \<open>A page without explicit rank found before a page with rank 3.\<close>

definition posts_early :: "BlogPost list" where
  "posts_early = [page ''a'' ''A'' 9999, page ''c'' ''C'' 3]"

section \<open>Properties of the string functions\<close>

lemma ReplaceAll_single_byte:
  "strings_ReplaceAll s [a] new = concat (map (\<lambda>c. if c = a then new else [c]) s)"
  by (induction s) auto

lemma ReplaceAll_absent:
  "a \<notin> set s \<Longrightarrow> strings_ReplaceAll s [a] new = s"
  by (induction s) auto

lemma isIDChar_not_upper: "isIDChar c \<Longrightarrow> \<not> isUpperASCII c"
  by (auto simp: isIDChar_def isUpperASCII_def isLowerASCII_def isDigitASCII_def byte_def)

lemma isIDChar_ascii: "isIDChar c \<Longrightarrow> byte c < 128"
  by (auto simp: isIDChar_def isLowerASCII_def isDigitASCII_def byte_def)

lemma isIDChar_not_space: "isIDChar c \<Longrightarrow> c \<noteq> CHR '' ''"
  by (auto simp: isIDChar_def isLowerASCII_def isDigitASCII_def byte_def)

lemma ToLower_id_chars:
  assumes "list_all isIDChar s"
  shows "strings_ToLower unicodeLower s = s"
proof -
  from assms have "list_all (\<lambda>c. byte c < 128) s"
    by (auto simp: list_all_iff intro: isIDChar_ascii)
  moreover from assms have "\<not> list_ex isUpperASCII s"
    by (auto simp: list_all_iff list_ex_iff dest: isIDChar_not_upper)
  ultimately show ?thesis by (simp add: strings_ToLower_def)
qed

lemma sanitize_id_chars:
  assumes "list_all isIDChar s"
  shows "sanitizeHeaderForID unicodeLower s = s"
proof -
  from assms have "CHR '' '' \<notin> set s"
    by (auto simp: list_all_iff dest: isIDChar_not_space)
  then have "strings_ReplaceAll s '' '' ''-'' = s"
    by (rule ReplaceAll_absent)
  moreover from assms have "filter isIDChar s = s"
    by (simp add: list_all_iff)
  ultimately show ?thesis
    using assms by (simp add: sanitizeHeaderForID_def ToLower_id_chars)
qed

lemma sanitize_only_id_chars: "list_all isIDChar (sanitizeHeaderForID unicodeLower x)"
  by (simp add: sanitizeHeaderForID_def list_all_iff)

lemma createSidebarLinks_loop_concat:
  "createSidebarLinks_loop unicodeLower headers acc =
     acc @ concat (map (\<lambda>h. sidebarLink (sanitizeHeaderForID unicodeLower h) h) headers)"
  by (induction headers arbitrary: acc) simp_all

text \<open>
  C9. \<open>sanitizeHeaderForID\<close> is idempotent: sanitising an already sanitised heading
  gives it back unchanged, for every input string and whatever the Unicode lower-casing
  of the library does on strings with bytes outside ASCII.
\<close>

theorem sanitize_idempotent:
  "sanitizeHeaderForID unicodeLower (sanitizeHeaderForID unicodeLower x)
     = sanitizeHeaderForID unicodeLower x"
  by (rule sanitize_id_chars) (rule sanitize_only_id_chars)

text \<open>
  C8. For every sequence of headings \<open>createSidebarLinks\<close> returns the concatenation,
  in order, of one link per heading, and the anchor of the link of a heading is
  \<open>sanitizeHeaderForID\<close> of that heading; the function has no error result. Two headings
  with the same sanitised form (\<open>API Design!\<close> and \<open>API Design?\<close>, both \<open>api-design\<close>)
  give two links with the same anchor.
\<close>

theorem createSidebarLinks_one_link_per_heading:
  "createSidebarLinks unicodeLower headers =
     concat (map (\<lambda>h. ''<li><a href=\"#'' @ sanitizeHeaderForID unicodeLower h @ ''\">''
                          @ h @ ''</a></li>'') headers)
   \<and> sanitizeHeaderForID unicodeLower ''API Design!'' = ''api-design''
   \<and> sanitizeHeaderForID unicodeLower ''API Design?'' = ''api-design''
   \<and> createSidebarLinks unicodeLower [''API Design!'', ''API Design?''] =
       ''<li><a href=\"#api-design\">API Design!</a></li>'' @
       ''<li><a href=\"#api-design\">API Design?</a></li>''"
proof -
  have "createSidebarLinks unicodeLower headers =
     concat (map (\<lambda>h. ''<li><a href=\"#'' @ sanitizeHeaderForID unicodeLower h @ ''\">''
                          @ h @ ''</a></li>'') headers)"
    by (simp add: createSidebarLinks_def createSidebarLinks_loop_concat sidebarLink_def)
  moreover have "sanitizeHeaderForID unicodeLower ''API Design!'' = ''api-design''"
    by code_simp
  moreover have "sanitizeHeaderForID unicodeLower ''API Design?'' = ''api-design''"
    by code_simp
  moreover have "createSidebarLinks unicodeLower [''API Design!'', ''API Design?''] =
       ''<li><a href=\"#api-design\">API Design!</a></li>'' @
       ''<li><a href=\"#api-design\">API Design?</a></li>''"
    by code_simp
  ultimately show ?thesis by blast
qed

section \<open>Properties of the front-matter parser\<close>

lemma Index_at_prefix: "strings_Index (sep @ post) sep = Some 0"
proof (cases "sep @ post")
  case Nil
  then show ?thesis by simp
next
  case (Cons a list)
  have "prefix sep (sep @ post)" by simp
  with Cons show ?thesis by simp
qed

lemma Index_None_no_occurrence:
  "strings_Index s sep = None \<Longrightarrow> s \<noteq> pre @ sep @ post"
proof (induction s arbitrary: pre)
  case Nil
  then show ?case by (auto split: if_splits)
next
  case (Cons c cs)
  show ?case
  proof (cases pre)
    case Nil
    with Cons.prems show ?thesis by (auto split: if_splits)
  next
    case (Cons p ps)
    with Cons.prems Cons.IH[of ps] show ?thesis by (auto split: if_splits)
  qed
qed

lemma Index_Some_split:
  "strings_Index s sep = Some m \<Longrightarrow> take m s @ sep @ drop (m + length sep) s = s"
proof (induction s arbitrary: m)
  case Nil
  then show ?case by (auto split: if_splits)
next
  case (Cons c cs)
  then show ?case by (auto split: if_splits simp: prefix_def)
qed

lemma Index_Some_iff:
  "(\<exists>m. strings_Index s sep = Some m) \<longleftrightarrow> (\<exists>pre post. s = pre @ sep @ post)"
proof
  assume "\<exists>m. strings_Index s sep = Some m"
  then obtain m where "strings_Index s sep = Some m" ..
  then have "s = take m s @ sep @ drop (m + length sep) s" by (simp add: Index_Some_split)
  then show "\<exists>pre post. s = pre @ sep @ post" by blast
next
  assume "\<exists>pre post. s = pre @ sep @ post"
  then obtain pre post where "s = pre @ sep @ post" by blast
  then have "strings_Index s sep \<noteq> None" using Index_None_no_occurrence by blast
  then show "\<exists>m. strings_Index s sep = Some m" by auto
qed

lemma ReplaceAll_delete_byte: "strings_ReplaceAll s [a] [] = filter (\<lambda>c. c \<noteq> a) s"
  by (induction s) auto

lemma splitSections_None_iff:
  "splitSections content = None \<longleftrightarrow> \<not> (\<exists>pre post. content = pre @ ''---'' @ post)"
  using Index_Some_iff[of content "''---''"]
  by (auto simp: splitSections_def strings_SplitN2_def Let_def split: option.splits)

lemma splitSections_Some:
  assumes "splitSections content = Some (metadata, mdContent)"
  shows "metadata @ ''---'' @ mdContent = filter (\<lambda>c. c \<noteq> CHR 0x0D) content"
proof -
  from assms obtain m where m: "strings_Index content ''---'' = Some m"
    and md: "metadata = filter (\<lambda>c. c \<noteq> CHR 0x0D) (take m content)"
    and bd: "mdContent = filter (\<lambda>c. c \<noteq> CHR 0x0D) (drop (m + length ''---'') content)"
    by (auto simp: splitSections_def strings_SplitN2_def Let_def ReplaceAll_delete_byte
             split: option.splits if_splits)
  have "filter (\<lambda>c. c \<noteq> CHR 0x0D) content =
        filter (\<lambda>c. c \<noteq> CHR 0x0D) (take m content @ ''---'' @ drop (m + length ''---'') content)"
    using Index_Some_split[OF m] by simp
  also have "\<dots> = metadata @ ''---'' @ mdContent"
    unfolding md bd by simp
  finally show ?thesis by simp
qed

lemma parseMarkdownFile_error:
  "snd (parseMarkdownFile mdToHTML content) = (if splitSections content = None then Some InvalidMarkdownFormat else None)"
  by (auto simp: parseMarkdownFile_def split: option.splits prod.splits)

lemma parseMarkdownFile_failed_post:
  "splitSections content = None \<Longrightarrow> parseMarkdownFile mdToHTML content = (BlogPost_zero, Some InvalidMarkdownFormat)"
  by (simp add: parseMarkdownFile_def)


lemma findAllMeta_Nil: "findAllMeta [] = []"
  by (simp add: findAllMeta.simps metaMatchAt_def nextLineStart_def)

lemma parseMetaData_Nil: "parseMetaData [] = ([], [], [], [], 9999, [], [], [], [])"
  by (simp add: parseMetaData_def metaDataMap_of_def findAllMeta_Nil mapIndex_def strconv_Atoi_def)

lemma splitSections_leading_delimiter:
  "splitSections (''---'' @ rest) = Some ([], filter (\<lambda>c. c \<noteq> CHR 0x0D) rest)"
  using Index_at_prefix[of "''---''" rest]
  by (simp add: splitSections_def strings_SplitN2_def ReplaceAll_delete_byte)

text \<open>
  C5. For every input that contains the delimiter \<open>---\<close>, \<open>parseMarkdownFile\<close> returns
  no error and works on exactly two blocks, the metadata block (handed to
  \<open>parseMetaData\<close>) and the body block (handed to the renderer and to \<open>extractHeaders\<close>),
  such that metadata block, delimiter and body block together are the input with
  every carriage return removed.
\<close>

theorem parse_blocks_roundtrip:
  assumes "content = pre @ ''---'' @ post"
  shows "\<exists>metadata mdContent.
           splitSections content = Some (metadata, mdContent)
         \<and> metadata @ ''---'' @ mdContent = filter (\<lambda>c. c \<noteq> CHR 0x0D) content
         \<and> snd (parseMarkdownFile mdToHTML content) = None
         \<and> Content (fst (parseMarkdownFile mdToHTML content)) = mdToHTML mdContent
         \<and> Headers (fst (parseMarkdownFile mdToHTML content)) = extractHeaders mdContent
         \<and> Title (fst (parseMarkdownFile mdToHTML content)) = fst (parseMetaData metadata)"
proof -
  from assms have "splitSections content \<noteq> None"
    by (auto simp: splitSections_None_iff)
  then obtain metadata mdContent where s: "splitSections content = Some (metadata, mdContent)"
    by auto
  have "metadata @ ''---'' @ mdContent = filter (\<lambda>c. c \<noteq> CHR 0x0D) content"
    using s by (rule splitSections_Some)
  moreover have "snd (parseMarkdownFile mdToHTML content) = None"
    using s by (simp add: parseMarkdownFile_error)
  moreover have "Content (fst (parseMarkdownFile mdToHTML content)) = mdToHTML mdContent"
    using s by (simp add: parseMarkdownFile_def split: prod.splits)
  moreover have "Headers (fst (parseMarkdownFile mdToHTML content)) = extractHeaders mdContent"
    using s by (simp add: parseMarkdownFile_def split: prod.splits)
  moreover have "Title (fst (parseMarkdownFile mdToHTML content)) = fst (parseMetaData metadata)"
    using s by (simp add: parseMarkdownFile_def split: prod.splits)
  ultimately show ?thesis using s by blast
qed

theorem parse_blocks_roundtrip_witness:
  "\<exists>metadata mdContent.
     splitSections (''Title: X'' @ [CHR 0x0D, CHR 0x0A] @ ''---'' @ [CHR 0x0D, CHR 0x0A] @ ''body'')
       = Some (metadata, mdContent)
   \<and> metadata @ ''---'' @ mdContent = ''Title: X'' @ [CHR 0x0A] @ ''---'' @ [CHR 0x0A] @ ''body''
   \<and> snd (parseMarkdownFile (\<lambda>s. s)
        (''Title: X'' @ [CHR 0x0D, CHR 0x0A] @ ''---'' @ [CHR 0x0D, CHR 0x0A] @ ''body'')) = None"
  using parse_blocks_roundtrip
    [of "''Title: X'' @ [CHR 0x0D, CHR 0x0A] @ ''---'' @ [CHR 0x0D, CHR 0x0A] @ ''body''"
        "''Title: X'' @ [CHR 0x0D, CHR 0x0A]" "[CHR 0x0D, CHR 0x0A] @ ''body''" "\<lambda>s. s"]
  by auto

text \<open>
  C10. When the raw content begins with the delimiter \<open>---\<close>, the metadata block is
  empty: \<open>parseMarkdownFile\<close> returns no error, every string field taken from the
  metadata is empty and \<open>Order\<close> is 9999; the body is the rest of the content without
  carriage returns.
\<close>

theorem parse_empty_front_matter:
  "parseMarkdownFile mdToHTML (''---'' @ rest) =
     (\<lparr>Title = [], Slug = [], Parent = [],
       Content = mdToHTML (filter (\<lambda>c. c \<noteq> CHR 0x0D) rest), Description = [],
       BlogPost.Order = 9999, Headers = extractHeaders (filter (\<lambda>c. c \<noteq> CHR 0x0D) rest),
       MetaDescription = [], MetaPropertyTitle = [], MetaPropertyDescription = [],
       MetaOgURL = []\<rparr>, None)"
  using splitSections_leading_delimiter[of rest]
  by (simp add: parseMarkdownFile_def parseMetaData_Nil)

section \<open>Properties of the loader\<close>

lemma loop_skips_other_entries:
  "loadMarkdownPosts_loop mdToHTML os dir files posts =
   loadMarkdownPosts_loop mdToHTML os dir
     (filter (\<lambda>f. strings_HasSuffix (EntryName f) ''.md'') files) posts"
  by (induction files arbitrary: posts) (auto split: sum.splits prod.splits option.splits)

lemma loop_error_no_posts:
  "snd (loadMarkdownPosts_loop mdToHTML os dir files posts) = Some err
   \<Longrightarrow> fst (loadMarkdownPosts_loop mdToHTML os dir files posts) = []"
  by (induction files arbitrary: posts) (auto split: sum.splits prod.splits option.splits if_splits)

lemma loop_success_posts:
  "loadMarkdownPosts_loop mdToHTML os dir files posts = (result, None)
   \<Longrightarrow> \<exists>new. result = posts @ new \<and>
         list_all2 (\<lambda>post f. \<exists>content.
                      ReadFile os (dir @ ''/'' @ EntryName f) = Inr content \<and>
                      parseMarkdownFile mdToHTML content = (post, None))
           new (filter (\<lambda>f. strings_HasSuffix (EntryName f) ''.md'') files)"
proof (induction files arbitrary: posts)
  case Nil
  then show ?case by simp
next
  case (Cons f fs)
  show ?case
  proof (cases "strings_HasSuffix (EntryName f) ''.md''")
    case False
    with Cons show ?thesis by simp
  next
    case True
    with Cons.prems obtain content post where
      rd: "ReadFile os (dir @ ''/'' @ EntryName f) = Inr content" and
      ps: "parseMarkdownFile mdToHTML content = (post, None)" and
      rest: "loadMarkdownPosts_loop mdToHTML os dir fs (posts @ [post]) = (result, None)"
      by (auto split: sum.splits prod.splits option.splits)
    from Cons.IH[OF rest] obtain new where
      n: "result = (posts @ [post]) @ new" and
      l: "list_all2 (\<lambda>post f. \<exists>content.
                      ReadFile os (dir @ ''/'' @ EntryName f) = Inr content \<and>
                      parseMarkdownFile mdToHTML content = (post, None))
           new (filter (\<lambda>f. strings_HasSuffix (EntryName f) ''.md'') fs)"
      by blast
    have "result = posts @ (post # new)" using n by simp
    moreover have "list_all2 (\<lambda>post f. \<exists>content.
                      ReadFile os (dir @ ''/'' @ EntryName f) = Inr content \<and>
                      parseMarkdownFile mdToHTML content = (post, None))
           (post # new) (filter (\<lambda>f. strings_HasSuffix (EntryName f) ''.md'') (f # fs))"
      using True rd ps l by simp
    ultimately show ?thesis by blast
  qed
qed

lemma loop_parse_failure_aborts:
  assumes "file \<in> set files"
    and "strings_HasSuffix (EntryName file) ''.md''"
    and "ReadFile os (dir @ ''/'' @ EntryName file) = Inr content"
    and "snd (parseMarkdownFile mdToHTML content) \<noteq> None"
  shows "\<exists>err. loadMarkdownPosts_loop mdToHTML os dir files posts = ([], Some err)"
  using assms(1)
proof (induction files arbitrary: posts)
  case Nil
  then show ?case by simp
next
  case (Cons f fs)
  show ?case
  proof (cases "f = file")
    case True
    with assms(2-4) show ?thesis by (auto split: prod.splits option.splits)
  next
    case False
    with Cons.prems have "file \<in> set fs" by simp
    from Cons.IH[OF this] show ?thesis
      by (auto split: sum.splits prod.splits option.splits)
  qed
qed

lemma loop_all_readable:
  "list_all (\<lambda>f. \<exists>content. ReadFile os (dir @ ''/'' @ EntryName f) = Inr content \<and>
                    snd (parseMarkdownFile mdToHTML content) = None)
     (filter (\<lambda>f. strings_HasSuffix (EntryName f) ''.md'') files)
   \<Longrightarrow> snd (loadMarkdownPosts_loop mdToHTML os dir files posts) = None"
  by (induction files arbitrary: posts) (auto split: sum.splits prod.splits option.splits)

lemma no_delimiter_example:
  "\<not> (\<exists>pre post. ''Title: X\<newline>No delimiter here'' = pre @ ''---'' @ post)"
proof -
  have "splitSections ''Title: X\<newline>No delimiter here'' = None" by code_simp
  then show ?thesis
    using splitSections_None_iff[of "''Title: X\<newline>No delimiter here''"] by blast
qed

text \<open>
  C2. \<open>parseMarkdownFile\<close> returns its error (with the zero post) exactly when the
  content does not contain \<open>---\<close>, and returns no error exactly when it does. When the
  directory has an entry ending in \<open>.md\<close> whose file can be read and has no delimiter,
  \<open>loadMarkdownPosts\<close> returns an error together with the nil slice: no page of the
  directory is returned.
\<close>

theorem malformed_document_aborts_load:
  "(parseMarkdownFile mdToHTML content = (BlogPost_zero, Some InvalidMarkdownFormat))
     = (\<not> (\<exists>pre post. content = pre @ ''---'' @ post))
   \<and> (snd (parseMarkdownFile mdToHTML content) = None)
     = (\<exists>pre post. content = pre @ ''---'' @ post)
   \<and> (ReadDir os dir = Inr files \<and> f \<in> set files
        \<and> strings_HasSuffix (EntryName f) ''.md''
        \<and> ReadFile os (dir @ ''/'' @ EntryName f) = Inr c
        \<and> \<not> (\<exists>pre post. c = pre @ ''---'' @ post)
      \<longrightarrow> (\<exists>err. loadMarkdownPosts mdToHTML os dir = ([], Some err)))"
proof -
  have a: "(parseMarkdownFile mdToHTML content = (BlogPost_zero, Some InvalidMarkdownFormat))
     = (\<not> (\<exists>pre post. content = pre @ ''---'' @ post))"
  proof (cases "splitSections content")
    case None
    then show ?thesis
      using splitSections_None_iff[of content] by (simp add: parseMarkdownFile_failed_post)
  next
    case (Some a)
    then have "snd (parseMarkdownFile mdToHTML content) = None"
      by (simp add: parseMarkdownFile_error)
    then have "parseMarkdownFile mdToHTML content \<noteq> (BlogPost_zero, Some InvalidMarkdownFormat)"
      by auto
    then show ?thesis using Some splitSections_None_iff[of content] by simp
  qed
  have b: "(snd (parseMarkdownFile mdToHTML content) = None)
     = (\<exists>pre post. content = pre @ ''---'' @ post)"
    using splitSections_None_iff[of content] by (simp add: parseMarkdownFile_error)
  have c: "\<exists>err. loadMarkdownPosts mdToHTML os dir = ([], Some err)"
    if h: "ReadDir os dir = Inr files" "f \<in> set files"
      "strings_HasSuffix (EntryName f) ''.md''"
      "ReadFile os (dir @ ''/'' @ EntryName f) = Inr c"
      "\<not> (\<exists>pre post. c = pre @ ''---'' @ post)"
  proof -
    from h(5) have "snd (parseMarkdownFile mdToHTML c) \<noteq> None"
      using splitSections_None_iff[of c] by (simp add: parseMarkdownFile_error)
    from loop_parse_failure_aborts[OF h(2) h(3) h(4) this]
    show ?thesis using h(1) by (simp add: loadMarkdownPosts_def)
  qed
  from a b c show ?thesis by blast
qed

theorem malformed_document_aborts_load_witness:
  "ReadDir os_malformed ''./markdown''
     = Inr [\<lparr>EntryName = ''a.md'', IsDir = False\<rparr>, \<lparr>EntryName = ''bad.md'', IsDir = False\<rparr>]
   \<and> strings_HasSuffix ''bad.md'' ''.md''
   \<and> ReadFile os_malformed ''./markdown/bad.md'' = Inr ''Title: X\<newline>No delimiter here''
   \<and> \<not> (\<exists>pre post. ''Title: X\<newline>No delimiter here'' = pre @ ''---'' @ post)
   \<and> (\<exists>err. loadMarkdownPosts (\<lambda>s. s) os_malformed ''./markdown'' = ([], Some err))
   \<and> loadMarkdownPosts (\<lambda>s. s) os_malformed ''./markdown'' = ([], Some InvalidMarkdownFormat)"
proof -
  have 1: "ReadDir os_malformed ''./markdown''
     = Inr [\<lparr>EntryName = ''a.md'', IsDir = False\<rparr>, \<lparr>EntryName = ''bad.md'', IsDir = False\<rparr>]"
    by (simp add: os_malformed_def)
  have 2: "strings_HasSuffix ''bad.md'' ''.md''"
    by (simp add: strings_HasSuffix_def)
  have 3: "ReadFile os_malformed ''./markdown/bad.md'' = Inr ''Title: X\<newline>No delimiter here''"
    by (simp add: os_malformed_def)
  note 4 = no_delimiter_example
  from malformed_document_aborts_load
    [of "\<lambda>s. s" "[]" os_malformed "''./markdown''"
        "[\<lparr>EntryName = ''a.md'', IsDir = False\<rparr>, \<lparr>EntryName = ''bad.md'', IsDir = False\<rparr>]"
        "\<lparr>EntryName = ''bad.md'', IsDir = False\<rparr>" "''Title: X\<newline>No delimiter here''"]
  have "\<exists>err. loadMarkdownPosts (\<lambda>s. s) os_malformed ''./markdown'' = ([], Some err)"
    using 1 2 3 4 by simp
  moreover have "loadMarkdownPosts (\<lambda>s. s) os_malformed ''./markdown''
                 = ([], Some InvalidMarkdownFormat)"
    by code_simp
  ultimately show ?thesis using 1 2 3 4 by blast
qed

text \<open>
  C7. \<open>loadMarkdownPosts\<close> gives the result it would give for a listing that holds
  only the entries whose name ends in \<open>.md\<close>: every other entry, a subdirectory
  included, is passed over without being read. When it succeeds, the posts are, in
  order, the parsed contents of exactly the entries ending in \<open>.md\<close>; and it
  succeeds as soon as each of those entries can be read and parsed.
\<close>

theorem load_reads_md_entries_only:
  "(ReadDir os dir = Inr files \<longrightarrow>
      loadMarkdownPosts mdToHTML os dir =
      loadMarkdownPosts mdToHTML
        (os\<lparr>ReadDir := \<lambda>d. Inr (filter (\<lambda>f. strings_HasSuffix (EntryName f) ''.md'') files)\<rparr>)
        dir)
   \<and> (ReadDir os dir = Inr files \<and> loadMarkdownPosts mdToHTML os dir = (posts, None) \<longrightarrow>
        list_all2 (\<lambda>post f. \<exists>content.
                     ReadFile os (dir @ ''/'' @ EntryName f) = Inr content \<and>
                     parseMarkdownFile mdToHTML content = (post, None))
          posts (filter (\<lambda>f. strings_HasSuffix (EntryName f) ''.md'') files))
   \<and> (ReadDir os dir = Inr files \<and>
        list_all (\<lambda>f. \<exists>content. ReadFile os (dir @ ''/'' @ EntryName f) = Inr content \<and>
                         snd (parseMarkdownFile mdToHTML content) = None)
          (filter (\<lambda>f. strings_HasSuffix (EntryName f) ''.md'') files) \<longrightarrow>
        snd (loadMarkdownPosts mdToHTML os dir) = None)"
proof -
  let ?md = "filter (\<lambda>f. strings_HasSuffix (EntryName f) ''.md'') files"
  let ?os = "os\<lparr>ReadDir := \<lambda>d. Inr ?md\<rparr>"
  have loop_os: "loadMarkdownPosts_loop mdToHTML ?os dir fs ps =
                 loadMarkdownPosts_loop mdToHTML os dir fs ps" for fs ps
    by (induction fs arbitrary: ps) (auto split: sum.splits prod.splits option.splits)
  have a: "loadMarkdownPosts mdToHTML os dir = loadMarkdownPosts mdToHTML ?os dir"
    if "ReadDir os dir = Inr files"
    using that loop_skips_other_entries[of mdToHTML os dir files "[]"]
    by (simp add: loadMarkdownPosts_def loop_os)
  have b: "list_all2 (\<lambda>post f. \<exists>content.
                     ReadFile os (dir @ ''/'' @ EntryName f) = Inr content \<and>
                     parseMarkdownFile mdToHTML content = (post, None)) posts ?md"
    if "ReadDir os dir = Inr files" "loadMarkdownPosts mdToHTML os dir = (posts, None)"
  proof -
    from that have "loadMarkdownPosts_loop mdToHTML os dir files [] = (posts, None)"
      by (simp add: loadMarkdownPosts_def)
    from loop_success_posts[OF this] show ?thesis by simp
  qed
  have c: "snd (loadMarkdownPosts mdToHTML os dir) = None"
    if "ReadDir os dir = Inr files"
      "list_all (\<lambda>f. \<exists>content. ReadFile os (dir @ ''/'' @ EntryName f) = Inr content \<and>
                         snd (parseMarkdownFile mdToHTML content) = None) ?md"
    using that(1) loop_all_readable[OF that(2), of "[]"] by (simp add: loadMarkdownPosts_def)
  from a b c show ?thesis by blast
qed

theorem load_reads_md_entries_only_witness:
  "ReadDir os_mixed ''./markdown'' = Inr mixed_entries
   \<and> filter (\<lambda>f. strings_HasSuffix (EntryName f) ''.md'') mixed_entries
       = [\<lparr>EntryName = ''a.md'', IsDir = False\<rparr>, \<lparr>EntryName = ''b.md'', IsDir = False\<rparr>]
   \<and> loadMarkdownPosts (\<lambda>s. s) os_mixed ''./markdown'' =
       loadMarkdownPosts (\<lambda>s. s)
         (os_mixed\<lparr>ReadDir := \<lambda>d. Inr [\<lparr>EntryName = ''a.md'', IsDir = False\<rparr>,
                                         \<lparr>EntryName = ''b.md'', IsDir = False\<rparr>]\<rparr>) ''./markdown''
   \<and> snd (loadMarkdownPosts (\<lambda>s. s) os_mixed ''./markdown'') = None
   \<and> length (fst (loadMarkdownPosts (\<lambda>s. s) os_mixed ''./markdown'')) = 2"
proof -
  let ?L = "loadMarkdownPosts (\<lambda>s. s) os_mixed ''./markdown''"
  have rd: "ReadDir os_mixed ''./markdown'' = Inr mixed_entries"
    by (simp add: os_mixed_def)
  have fl: "filter (\<lambda>f. strings_HasSuffix (EntryName f) ''.md'') mixed_entries
       = [\<lparr>EntryName = ''a.md'', IsDir = False\<rparr>, \<lparr>EntryName = ''b.md'', IsDir = False\<rparr>]"
    by (simp add: mixed_entries_def strings_HasSuffix_def)
  have pa: "snd (parseMarkdownFile (\<lambda>s. s) ''Title: A\<newline>---\<newline>text'') = None"
    by code_simp
  have pb: "snd (parseMarkdownFile (\<lambda>s. s) ''Title: B\<newline>---\<newline>more'') = None"
    by code_simp
  have ok: "list_all (\<lambda>f. \<exists>content. ReadFile os_mixed (''./markdown'' @ ''/'' @ EntryName f) = Inr content \<and>
                         snd (parseMarkdownFile (\<lambda>s. s) content) = None)
          (filter (\<lambda>f. strings_HasSuffix (EntryName f) ''.md'') mixed_entries)"
    unfolding fl using pa pb by (simp add: os_mixed_def)
  note t = load_reads_md_entries_only
    [of os_mixed "''./markdown''" mixed_entries "\<lambda>s. s" "fst ?L"]
  from t rd ok have e: "snd ?L = None" by blast
  then have "?L = (fst ?L, None)" by (metis prod.collapse)
  with t rd have "list_all2 (\<lambda>post f. \<exists>content.
                     ReadFile os_mixed (''./markdown'' @ ''/'' @ EntryName f) = Inr content \<and>
                     parseMarkdownFile (\<lambda>s. s) content = (post, None))
          (fst ?L) (filter (\<lambda>f. strings_HasSuffix (EntryName f) ''.md'') mixed_entries)"
    by blast
  then have len: "length (fst ?L) = 2"
    unfolding fl by (auto dest: list_all2_lengthD)
  from t rd have "?L = loadMarkdownPosts (\<lambda>s. s)
        (os_mixed\<lparr>ReadDir := \<lambda>d. Inr (filter (\<lambda>f. strings_HasSuffix (EntryName f) ''.md'') mixed_entries)\<rparr>)
        ''./markdown''"
    by blast
  then have eq: "?L = loadMarkdownPosts (\<lambda>s. s)
         (os_mixed\<lparr>ReadDir := \<lambda>d. Inr [\<lparr>EntryName = ''a.md'', IsDir = False\<rparr>,
                                         \<lparr>EntryName = ''b.md'', IsDir = False\<rparr>]\<rparr>) ''./markdown''"
    unfolding fl .
  from rd fl eq e len show ?thesis by blast
qed

section \<open>Properties of the sidebar\<close>

lemma find_filter:
  "find P xs = (case filter P xs of [] \<Rightarrow> None | x # ys \<Rightarrow> Some x)"
  by (induction xs) auto

lemma groupPosts_empty_name: "groupPosts posts m [] = m []"
  by (induction posts arbitrary: m) (auto split: option.splits)

lemma groupPosts_lookup:
  "name \<noteq> [] \<Longrightarrow>
   groupPosts posts m name =
     (case m name of
        Some c \<Rightarrow> Some (c\<lparr>Pages := Pages c @ filter (\<lambda>p. Parent p = name) posts\<rparr>)
      | None \<Rightarrow>
          (case filter (\<lambda>p. Parent p = name) posts of
             [] \<Rightarrow> None
           | p # ps \<Rightarrow> Some \<lparr>Name = name, Pages = p # ps, Category.Order = BlogPost.Order p\<rparr>))"
proof (induction posts arbitrary: m)
  case Nil
  then show ?case by (auto split: option.splits)
next
  case (Cons post posts)
  show ?case
  proof (cases "Parent post = name")
    case True
    with Cons show ?thesis by (auto split: option.splits list.splits)
  next
    case False
    with Cons show ?thesis by (auto split: option.splits list.splits)
  qed
qed

lemma categoriesMap_of_lookup:
  "categoriesMap_of posts name =
     (if name = [] then None
      else (case filter (\<lambda>p. Parent p = name) posts of
              [] \<Rightarrow> None
            | p # ps \<Rightarrow> Some \<lparr>Name = name, Pages = p # ps, Category.Order = BlogPost.Order p\<rparr>))"
  by (simp add: categoriesMap_of_def groupPosts_empty_name groupPosts_lookup)

lemma categoriesMap_of_Some:
  assumes "categoriesMap_of posts name = Some cat"
  shows "name \<noteq> [] \<and> Name cat = name \<and>
         (\<exists>first. find (\<lambda>p. Parent p = name) posts = Some first \<and>
                  Category.Order cat = BlogPost.Order first) \<and>
         Pages cat = filter (\<lambda>p. Parent p = name) posts"
  using assms
  by (auto simp: categoriesMap_of_lookup find_filter split: if_splits list.splits)

lemma dom_categoriesMap_of:
  "dom (categoriesMap_of posts) = {n. n \<noteq> [] \<and> n \<in> Parent ` set posts}"
proof -
  have "(n \<in> dom (categoriesMap_of posts)) = (n \<noteq> [] \<and> n \<in> Parent ` set posts)" for n
  proof (cases "filter (\<lambda>p. Parent p = n) posts")
    case Nil
    then have "n \<notin> Parent ` set posts" by (auto simp: filter_empty_conv)
    with Nil show ?thesis by (simp add: dom_def categoriesMap_of_lookup)
  next
    case (Cons p ps)
    then have "p \<in> set (filter (\<lambda>p. Parent p = n) posts)" by simp
    then have "n \<in> Parent ` set posts" by auto
    with Cons show ?thesis by (simp add: dom_def categoriesMap_of_lookup)
  qed
  then show ?thesis by blast
qed

lemma rangeValues_map:
  assumes "rangeOrder m keys"
  shows "map Some (rangeValues m keys) = map m keys"
proof -
  from assms have "\<forall>k\<in>set keys. m k \<noteq> None" by (auto simp: rangeOrder_def)
  then show ?thesis
    unfolding rangeValues_def
    by (induction keys) (auto simp: List.map_filter_simps)
qed

lemma sidebar_member:
  assumes "sidebarCategories posts keys cats" and "cat \<in> set cats"
  shows "\<exists>name\<in>set keys. categoriesMap_of posts name = Some cat"
proof -
  from assms(1) have ro: "rangeOrder (categoriesMap_of posts) keys"
    and ms: "mset cats = mset (rangeValues (categoriesMap_of posts) keys)"
    by (auto simp: sidebarCategories_def sortSliceResult_def)
  from ms assms(2) have "cat \<in> set (rangeValues (categoriesMap_of posts) keys)"
    by (metis set_mset_mset)
  then have "Some cat \<in> set (map Some (rangeValues (categoriesMap_of posts) keys))" by simp
  then have "Some cat \<in> set (map (categoriesMap_of posts) keys)"
    by (simp only: rangeValues_map[OF ro])
  then show ?thesis by auto
qed

lemma sidebar_names:
  assumes "sidebarCategories posts keys cats"
  shows "mset (map Name cats) = mset keys"
proof -
  from assms have ro: "rangeOrder (categoriesMap_of posts) keys"
    and ms: "mset cats = mset (rangeValues (categoriesMap_of posts) keys)"
    by (auto simp: sidebarCategories_def sortSliceResult_def)
  have "map Name (rangeValues (categoriesMap_of posts) keys) = keys"
  proof -
    have "\<forall>k\<in>set keys. \<exists>c. categoriesMap_of posts k = Some c \<and> Name c = k"
      using ro by (auto simp: rangeOrder_def dest: categoriesMap_of_Some)
    then show ?thesis
      unfolding rangeValues_def
      by (induction keys) (auto simp: List.map_filter_simps)
  qed
  moreover have "mset (map Name cats) = mset (map Name (rangeValues (categoriesMap_of posts) keys))"
    using ms by (metis mset_map)
  ultimately show ?thesis by simp
qed

lemma sidebar_sorted:
  assumes "sidebarCategories posts keys cats"
  shows "sorted_wrt (\<lambda>a b. Category.Order a \<le> Category.Order b) cats"
proof -
  from assms have "sorted_wrt (\<lambda>a b. \<not> lessOrder b a) cats"
    by (simp add: sidebarCategories_def sortSliceResult_def)
  moreover have "(\<lambda>a b. \<not> lessOrder b a) = (\<lambda>a b. Category.Order a \<le> Category.Order b)"
    by (auto simp: lessOrder_def fun_eq_iff)
  ultimately show ?thesis by simp
qed

lemma loadSidebarData_ok:
  assumes "loadSidebarData mdToHTML os dir (sb, err)"
  shows "(\<exists>posts e. err = Some e \<and> loadMarkdownPosts mdToHTML os dir = (posts, Some e) \<and> Categories sb = [])
       \<or> (\<exists>posts keys. err = None \<and> loadMarkdownPosts mdToHTML os dir = (posts, None) \<and>
             sidebarCategories posts keys (Categories sb))"
  using assms by (cases rule: loadSidebarData.cases) auto

lemma sidebar_distinct_names:
  assumes "sidebarCategories posts keys cats"
  shows "distinct (map Name cats) \<and> set (map Name cats) = {n. n \<noteq> [] \<and> n \<in> Parent ` set posts}"
proof -
  from assms have ro: "rangeOrder (categoriesMap_of posts) keys"
    by (simp add: sidebarCategories_def)
  have ms: "mset (map Name cats) = mset keys" using assms by (rule sidebar_names)
  from ro have "distinct keys" "set keys = dom (categoriesMap_of posts)"
    by (auto simp: rangeOrder_def)
  moreover from ms have "distinct (map Name cats) = distinct keys"
    by (metis mset_eq_imp_distinct_iff)
  moreover from ms have "set (map Name cats) = set keys"
    by (metis mset_eq_setD)
  ultimately show ?thesis by (simp add: dom_categoriesMap_of)
qed

lemma sidebar_order_by_name:
  assumes "sidebarCategories posts keys cats"
  shows "map Category.Order cats =
         map (\<lambda>n. case find (\<lambda>p. Parent p = n) posts of None \<Rightarrow> 0 | Some p \<Rightarrow> BlogPost.Order p)
             (map Name cats)"
proof -
  have "Category.Order cat =
        (case find (\<lambda>p. Parent p = Name cat) posts of None \<Rightarrow> 0 | Some p \<Rightarrow> BlogPost.Order p)"
    if "cat \<in> set cats" for cat
  proof -
    from sidebar_member[OF assms that] obtain name where
      "categoriesMap_of posts name = Some cat" by blast
    from categoriesMap_of_Some[OF this] show ?thesis by auto
  qed
  then show ?thesis by simp
qed

lemma abc_orders:
  assumes "sidebarCategories posts_abc keys cats"
  shows "map Name cats = [''B'', ''A'', ''C''] \<or> map Name cats = [''B'', ''C'', ''A'']"
proof -
  define g where
    "g = (\<lambda>n. case find (\<lambda>p. Parent p = n) posts_abc of None \<Rightarrow> 0 | Some p \<Rightarrow> BlogPost.Order p)"
  define ns where "ns = map Name cats"
  have gA: "g ''A'' = 5" and gB: "g ''B'' = 1" and gC: "g ''C'' = 5"
    by (simp_all add: g_def posts_abc_def page_def BlogPost_zero_def)
  have ps: "Parent ` set posts_abc = {''A'', ''B'', ''C''}"
    by (simp add: posts_abc_def page_def BlogPost_zero_def)
  from sidebar_distinct_names[OF assms] have d: "distinct ns"
    and s: "set ns = {''A'', ''B'', ''C''}"
    unfolding ps ns_def by auto
  have "sorted_wrt (\<lambda>a b. a \<le> b) (map Category.Order cats)"
    using sidebar_sorted[OF assms] by (simp add: sorted_wrt_map)
  then have so: "sorted_wrt (\<lambda>a b. g a \<le> g b) ns"
    unfolding g_def ns_def by (simp only: sidebar_order_by_name[OF assms] sorted_wrt_map)
  have "card (set ns) = 3" unfolding s by simp
  with d have "length ns = 3" by (simp add: distinct_card)
  then obtain x y z where xyz: "ns = [x, y, z]"
    by (auto simp: numeral_3_eq_3 length_Suc_conv)
  have "x \<in> set ns" "y \<in> set ns" "z \<in> set ns" using xyz by simp_all
  then have mem: "x = ''A'' \<or> x = ''B'' \<or> x = ''C''"
    "y = ''A'' \<or> y = ''B'' \<or> y = ''C''" "z = ''A'' \<or> z = ''B'' \<or> z = ''C''"
    unfolding s by simp_all
  from d xyz have dist: "x \<noteq> y" "x \<noteq> z" "y \<noteq> z" by auto
  from so xyz have le: "g x \<le> g y" "g x \<le> g z" "g y \<le> g z" by auto
  have "x = ''B''"
  proof (rule ccontr)
    assume "x \<noteq> ''B''"
    with mem(1) have gx: "g x = 5" using gA gC by auto
    from \<open>x \<noteq> ''B''\<close> mem dist have "y = ''B'' \<or> z = ''B''" by auto
    with le gx gB show False by auto
  qed
  with mem dist have "(y = ''A'' \<and> z = ''C'') \<or> (y = ''C'' \<and> z = ''A'')" by auto
  with \<open>x = ''B''\<close> xyz show ?thesis unfolding ns_def by auto
qed

lemma find_append_Some: "find P xs = Some x \<Longrightarrow> find P (xs @ ys) = Some x"
  by (induction xs) auto

text \<open>
  C3. The rank of a category is the \<open>Order\<close> of the first page with that parent: in
  the map built by the grouping loop, in every sidebar the function can return, and
  also when further pages (with any rank) follow the first page of the category. For
  the pages P1 (\<open>Guides\<close>, 2) and P2 (\<open>Guides\<close>, 5) the category \<open>Guides\<close> has rank 2.
\<close>

theorem category_rank_is_first_page_rank:
  "(name \<noteq> [] \<and> find (\<lambda>p. Parent p = name) posts = Some first \<longrightarrow>
      (\<exists>cat. categoriesMap_of posts name = Some cat \<and> Name cat = name \<and>
             Category.Order cat = BlogPost.Order first))
   \<and> (sidebarCategories posts keys cats \<and> cat \<in> set cats \<longrightarrow>
        (\<exists>first. find (\<lambda>p. Parent p = Name cat) posts = Some first \<and>
                 Category.Order cat = BlogPost.Order first))
   \<and> (name \<noteq> [] \<and> find (\<lambda>p. Parent p = name) posts = Some first \<and>
        sidebarCategories (posts @ later) keys' cats' \<and> cat' \<in> set cats' \<and> Name cat' = name \<longrightarrow>
        Category.Order cat' = BlogPost.Order first)"
proof -
  have a: "\<exists>cat. categoriesMap_of posts name = Some cat \<and> Name cat = name \<and>
             Category.Order cat = BlogPost.Order first"
    if "name \<noteq> []" "find (\<lambda>p. Parent p = name) posts = Some first"
    using that by (auto simp: categoriesMap_of_lookup find_filter split: list.splits)
  have b: "\<exists>first. find (\<lambda>p. Parent p = Name c) ps = Some first \<and>
                 Category.Order c = BlogPost.Order first"
    if "sidebarCategories ps ks cs" "c \<in> set cs" for ps ks cs c
  proof -
    from sidebar_member[OF that] obtain n where "categoriesMap_of ps n = Some c" by blast
    from categoriesMap_of_Some[OF this] show ?thesis by auto
  qed
  have c: "Category.Order cat' = BlogPost.Order first"
    if "name \<noteq> []" "find (\<lambda>p. Parent p = name) posts = Some first"
       "sidebarCategories (posts @ later) keys' cats'" "cat' \<in> set cats'" "Name cat' = name"
  proof -
    from b[OF that(3) that(4)] that(5) obtain f where
      f: "find (\<lambda>p. Parent p = name) (posts @ later) = Some f"
      and o: "Category.Order cat' = BlogPost.Order f" by auto
    from that(2) have "find (\<lambda>p. Parent p = name) (posts @ later) = Some first"
      by (rule find_append_Some)
    with f o show ?thesis by simp
  qed
  from a b c show ?thesis by blast
qed

lemma guides_sidebar:
  "sidebarCategories posts_guides [''Guides'']
     [\<lparr>Name = ''Guides'', Pages = posts_guides, Category.Order = 2\<rparr>]"
proof -
  have m: "categoriesMap_of posts_guides ''Guides''
           = Some \<lparr>Name = ''Guides'', Pages = posts_guides, Category.Order = 2\<rparr>"
    by (simp add: categoriesMap_of_lookup posts_guides_def page_def BlogPost_zero_def)
  have d: "dom (categoriesMap_of posts_guides) = {''Guides''}"
    by (auto simp: dom_categoriesMap_of posts_guides_def page_def BlogPost_zero_def)
  show ?thesis
    by (simp add: sidebarCategories_def rangeOrder_def d rangeValues_def
        List.map_filter_simps m sortSliceResult_def)
qed

theorem category_rank_is_first_page_rank_witness:
  "find (\<lambda>p. Parent p = ''Guides'') posts_guides = Some (page ''P1'' ''Guides'' 2)
   \<and> categoriesMap_of posts_guides ''Guides''
       = Some \<lparr>Name = ''Guides'', Pages = posts_guides, Category.Order = 2\<rparr>
   \<and> sidebarCategories posts_guides [''Guides'']
       [\<lparr>Name = ''Guides'', Pages = posts_guides, Category.Order = 2\<rparr>]
   \<and> sidebarCategories ([page ''P1'' ''Guides'' 2] @ [page ''P2'' ''Guides'' 5]) [''Guides'']
       [\<lparr>Name = ''Guides'', Pages = posts_guides, Category.Order = 2\<rparr>]
   \<and> Category.Order \<lparr>Name = ''Guides'', Pages = posts_guides, Category.Order = 2\<rparr>
       = BlogPost.Order (page ''P1'' ''Guides'' 2)"
proof -
  let ?c = "\<lparr>Name = ''Guides'', Pages = posts_guides, Category.Order = 2\<rparr>"
  have f: "find (\<lambda>p. Parent p = ''Guides'') posts_guides = Some (page ''P1'' ''Guides'' 2)"
    by (simp add: posts_guides_def page_def BlogPost_zero_def)
  have f1: "find (\<lambda>p. Parent p = ''Guides'') [page ''P1'' ''Guides'' 2] = Some (page ''P1'' ''Guides'' 2)"
    by (simp add: page_def BlogPost_zero_def)
  have s: "sidebarCategories posts_guides [''Guides''] [?c]" by (rule guides_sidebar)
  then have s2: "sidebarCategories ([page ''P1'' ''Guides'' 2] @ [page ''P2'' ''Guides'' 5]) [''Guides''] [?c]"
    by (simp add: posts_guides_def)
  note t1 = category_rank_is_first_page_rank
    [of "''Guides''" posts_guides "page ''P1'' ''Guides'' 2" "[''Guides'']" "[?c]" ?c "[]" "[]" "[]" ?c]
  note t2 = category_rank_is_first_page_rank
    [of "''Guides''" "[page ''P1'' ''Guides'' 2]" "page ''P1'' ''Guides'' 2" "[''Guides'']" "[?c]" ?c
        "[page ''P2'' ''Guides'' 5]" "[''Guides'']" "[?c]" ?c]
  have ne: "''Guides'' \<noteq> []" by simp
  have mem: "?c \<in> set [?c]" by simp
  have nm: "Name ?c = ''Guides''" by simp
  from t1 ne f have m: "\<exists>cat. categoriesMap_of posts_guides ''Guides'' = Some cat \<and> Name cat = ''Guides'' \<and>
             Category.Order cat = BlogPost.Order (page ''P1'' ''Guides'' 2)"
    by blast
  from t1 s mem have "\<exists>first. find (\<lambda>p. Parent p = Name ?c) posts_guides = Some first \<and>
                 Category.Order ?c = BlogPost.Order first"
    by blast
  have m': "categoriesMap_of posts_guides ''Guides'' = Some ?c"
    by (simp add: categoriesMap_of_lookup posts_guides_def page_def BlogPost_zero_def)
  from t2 ne f1 s2 mem nm have o: "Category.Order ?c = BlogPost.Order (page ''P1'' ''Guides'' 2)"
    by blast
  from f m' s s2 o show ?thesis by blast
qed

lemma load_abc: "loadMarkdownPosts (\<lambda>s. s) os_abc ''./markdown'' = (posts_abc, None)"
  by code_simp

lemma abc_map:
  "categoriesMap_of posts_abc ''A'' = Some (categoryOf (page ''a'' ''A'' 5))"
  "categoriesMap_of posts_abc ''B'' = Some (categoryOf (page ''b'' ''B'' 1))"
  "categoriesMap_of posts_abc ''C'' = Some (categoryOf (page ''c'' ''C'' 5))"
  by (simp_all add: categoriesMap_of_lookup posts_abc_def page_def BlogPost_zero_def categoryOf_def)

lemma abc_dom: "dom (categoriesMap_of posts_abc) = {''A'', ''B'', ''C''}"
  by (auto simp: dom_categoriesMap_of posts_abc_def page_def BlogPost_zero_def)

lemma abc_order:
  "Category.Order (categoryOf (page t p n)) = n" "Name (categoryOf (page t p n)) = p"
  by (simp_all add: categoryOf_def page_def BlogPost_zero_def)

lemma abc_sidebar_BAC:
  "sidebarCategories posts_abc [''A'', ''B'', ''C'']
     [categoryOf (page ''b'' ''B'' 1), categoryOf (page ''a'' ''A'' 5), categoryOf (page ''c'' ''C'' 5)]"
  by (auto simp: sidebarCategories_def rangeOrder_def abc_dom rangeValues_def
      List.map_filter_simps abc_map sortSliceResult_def lessOrder_def abc_order)

lemma abc_sidebar_BCA:
  "sidebarCategories posts_abc [''C'', ''B'', ''A'']
     [categoryOf (page ''b'' ''B'' 1), categoryOf (page ''c'' ''C'' 5), categoryOf (page ''a'' ''A'' 5)]"
  by (auto simp: sidebarCategories_def rangeOrder_def abc_dom rangeValues_def
      List.map_filter_simps abc_map sortSliceResult_def lessOrder_def abc_order)

text \<open>
  C1 (as amended). In every sidebar \<open>loadSidebarData\<close> can return, the categories are
  sorted ascending by rank and every category name (the non-empty parents of the
  pages) occurs exactly once. The order of two categories with the same rank is not
  determined by the order in which they were found: the map is enumerated in an
  arbitrary order and \<open>sort.Slice\<close> is not stable. For the categories \<open>A\<close> (rank 5,
  found first), \<open>B\<close> (rank 1) and \<open>C\<close> (rank 5) the result is \<open>[B, A, C]\<close> or \<open>[B, C, A]\<close>.
\<close>

theorem sidebar_sorted_by_rank:
  "(sidebarCategories posts keys cats \<longrightarrow>
      sorted_wrt (\<lambda>a b. Category.Order a \<le> Category.Order b) cats
      \<and> distinct (map Name cats)
      \<and> set (map Name cats) = {n. n \<noteq> [] \<and> n \<in> Parent ` set posts})
   \<and> (loadSidebarData mdToHTML os dir (sb, err) \<longrightarrow>
        sorted_wrt (\<lambda>a b. Category.Order a \<le> Category.Order b) (Categories sb)
        \<and> distinct (map Name (Categories sb)))
   \<and> (sidebarCategories posts_abc keys' cats' \<longrightarrow>
        map Name cats' = [''B'', ''A'', ''C''] \<or> map Name cats' = [''B'', ''C'', ''A''])"
proof -
  have a: "sorted_wrt (\<lambda>a b. Category.Order a \<le> Category.Order b) cs
      \<and> distinct (map Name cs)
      \<and> set (map Name cs) = {n. n \<noteq> [] \<and> n \<in> Parent ` set ps}"
    if "sidebarCategories ps ks cs" for ps ks cs
    using sidebar_sorted[OF that] sidebar_distinct_names[OF that] by simp
  have b: "sorted_wrt (\<lambda>a b. Category.Order a \<le> Category.Order b) (Categories sb)
        \<and> distinct (map Name (Categories sb))"
    if "loadSidebarData mdToHTML os dir (sb, err)"
    using loadSidebarData_ok[OF that] a by auto
  have c: "map Name cats' = [''B'', ''A'', ''C''] \<or> map Name cats' = [''B'', ''C'', ''A'']"
    if "sidebarCategories posts_abc keys' cats'"
    using that by (rule abc_orders)
  from a b c show ?thesis by blast
qed

theorem sidebar_sorted_by_rank_witness:
  "sidebarCategories posts_abc [''A'', ''B'', ''C'']
     [categoryOf (page ''b'' ''B'' 1), categoryOf (page ''a'' ''A'' 5), categoryOf (page ''c'' ''C'' 5)]
   \<and> loadSidebarData (\<lambda>s. s) os_abc ''./markdown''
       (\<lparr>Categories = [categoryOf (page ''b'' ''B'' 1), categoryOf (page ''a'' ''A'' 5),
                        categoryOf (page ''c'' ''C'' 5)]\<rparr>, None)
   \<and> sorted_wrt (\<lambda>a b. Category.Order a \<le> Category.Order b)
       [categoryOf (page ''b'' ''B'' 1), categoryOf (page ''a'' ''A'' 5), categoryOf (page ''c'' ''C'' 5)]
   \<and> map Name [categoryOf (page ''b'' ''B'' 1), categoryOf (page ''a'' ''A'' 5),
                categoryOf (page ''c'' ''C'' 5)] = [''B'', ''A'', ''C'']"
proof -
  let ?cs = "[categoryOf (page ''b'' ''B'' 1), categoryOf (page ''a'' ''A'' 5),
              categoryOf (page ''c'' ''C'' 5)]"
  have s: "sidebarCategories posts_abc [''A'', ''B'', ''C''] ?cs" by (rule abc_sidebar_BAC)
  have l: "loadSidebarData (\<lambda>s. s) os_abc ''./markdown'' (\<lparr>Categories = ?cs\<rparr>, None)"
    using load_abc s by (rule load_done)
  note t = sidebar_sorted_by_rank
    [of posts_abc "[''A'', ''B'', ''C'']" ?cs "\<lambda>s. s" os_abc "''./markdown''"
        "\<lparr>Categories = ?cs\<rparr>" None "[''A'', ''B'', ''C'']" ?cs]
  from t s have "sorted_wrt (\<lambda>a b. Category.Order a \<le> Category.Order b) ?cs" by blast
  moreover from t l have "distinct (map Name (Categories \<lparr>Categories = ?cs\<rparr>))" by blast
  moreover have "map Name ?cs = [''B'', ''A'', ''C'']" by (simp add: abc_order)
  ultimately show ?thesis using s l by blast
qed

text \<open>
  The claim as stated fails: for the directory \<open>os_abc\<close>, whose categories are found in
  the order \<open>A\<close> (rank 5), \<open>B\<close> (rank 1), \<open>C\<close> (rank 5), the sidebar \<open>[B, C, A]\<close> is a
  possible result. It is what the program returns when the map is enumerated in the
  order \<open>C, B, A\<close>, even with a sort that keeps equal elements in place.
\<close>

theorem sidebar_ties_counterexample:
  "loadMarkdownPosts (\<lambda>s. s) os_abc ''./markdown'' = (posts_abc, None)
   \<and> map Parent posts_abc = [''A'', ''B'', ''C'']
   \<and> loadSidebarData (\<lambda>s. s) os_abc ''./markdown''
       (\<lparr>Categories = [categoryOf (page ''b'' ''B'' 1), categoryOf (page ''c'' ''C'' 5),
                        categoryOf (page ''a'' ''A'' 5)]\<rparr>, None)
   \<and> map Name [categoryOf (page ''b'' ''B'' 1), categoryOf (page ''c'' ''C'' 5),
                categoryOf (page ''a'' ''A'' 5)] = [''B'', ''C'', ''A'']
   \<and> map Category.Order [categoryOf (page ''b'' ''B'' 1), categoryOf (page ''c'' ''C'' 5),
                categoryOf (page ''a'' ''A'' 5)] = [1, 5, 5]"
proof -
  have "loadSidebarData (\<lambda>s. s) os_abc ''./markdown''
       (\<lparr>Categories = [categoryOf (page ''b'' ''B'' 1), categoryOf (page ''c'' ''C'' 5),
                        categoryOf (page ''a'' ''A'' 5)]\<rparr>, None)"
    using load_abc abc_sidebar_BCA by (rule load_done)
  moreover have "map Parent posts_abc = [''A'', ''B'', ''C'']"
    by (simp add: posts_abc_def page_def BlogPost_zero_def)
  ultimately show ?thesis using load_abc by (simp add: abc_order)
qed

section \<open>The default rank\<close>

lemma Atoi_Nil: "strconv_Atoi [] = None"
  by (simp add: strconv_Atoi_def)

lemma parseMetaData_order:
  "fst (snd (snd (snd (snd (parseMetaData metadata))))) =
     (case strconv_Atoi (mapIndex (metaDataMap_of metadata) ''Order'') of
        None \<Rightarrow> 9999 | Some n \<Rightarrow> n)"
  by (simp add: parseMetaData_def Let_def)

lemma parseMarkdownFile_order:
  "splitSections content = Some (metadata, mdContent) \<Longrightarrow>
   BlogPost.Order (fst (parseMarkdownFile mdToHTML content)) =
     (case strconv_Atoi (mapIndex (metaDataMap_of metadata) ''Order'') of
        None \<Rightarrow> 9999 | Some n \<Rightarrow> n)"
  by (simp add: parseMarkdownFile_def parseMetaData_def Let_def)

text \<open>
  C6 (as amended). When the metadata block has no \<open>Order\<close> entry, or the value of the
  entry is not accepted by \<open>strconv.Atoi\<close>, \<open>parseMarkdownFile\<close> returns no error and the
  \<open>Order\<close> 9999. In every sidebar, a category whose first page has the \<open>Order\<close> 9999
  stands behind every category whose first page has an \<open>Order\<close> below 9999. (Pages
  themselves are never sorted; the rank only orders the categories.)
\<close>

theorem missing_order_defaults_to_9999:
  "(splitSections content = Some (metadata, mdContent) \<and>
      (metaDataMap_of metadata ''Order'' = None \<or>
       strconv_Atoi (mapIndex (metaDataMap_of metadata) ''Order'') = None) \<longrightarrow>
      snd (parseMarkdownFile mdToHTML content) = None \<and>
      BlogPost.Order (fst (parseMarkdownFile mdToHTML content)) = 9999)
   \<and> (sidebarCategories posts keys cats \<and> i < length cats \<and> j < length cats \<and>
        find (\<lambda>p. Parent p = Name (cats ! i)) posts = Some d \<and> BlogPost.Order d = 9999 \<and>
        find (\<lambda>p. Parent p = Name (cats ! j)) posts = Some e \<and> BlogPost.Order e < 9999 \<longrightarrow>
        j < i)"
proof -
  have a: "snd (parseMarkdownFile mdToHTML content) = None \<and>
      BlogPost.Order (fst (parseMarkdownFile mdToHTML content)) = 9999"
    if s: "splitSections content = Some (metadata, mdContent)"
      and h: "metaDataMap_of metadata ''Order'' = None \<or>
       strconv_Atoi (mapIndex (metaDataMap_of metadata) ''Order'') = None"
  proof -
    from h have "strconv_Atoi (mapIndex (metaDataMap_of metadata) ''Order'') = None"
      by (auto simp: mapIndex_def Atoi_Nil)
    then show ?thesis using s
      by (simp add: parseMarkdownFile_order parseMarkdownFile_error)
  qed
  have b: "j < i"
    if sc: "sidebarCategories posts keys cats" and i: "i < length cats" and j: "j < length cats"
      and d: "find (\<lambda>p. Parent p = Name (cats ! i)) posts = Some d" "BlogPost.Order d = 9999"
      and e: "find (\<lambda>p. Parent p = Name (cats ! j)) posts = Some e" "BlogPost.Order e < 9999"
  proof -
    have rank: "Category.Order (cats ! k) =
        (case find (\<lambda>p. Parent p = Name (cats ! k)) posts of None \<Rightarrow> 0 | Some p \<Rightarrow> BlogPost.Order p)"
      if "k < length cats" for k
    proof -
      from that have "cats ! k \<in> set cats" by simp
      from sidebar_member[OF sc this] obtain n where
        "categoriesMap_of posts n = Some (cats ! k)" by blast
      from categoriesMap_of_Some[OF this] show ?thesis by auto
    qed
    from rank[OF i] d have oi: "Category.Order (cats ! i) = 9999" by simp
    from rank[OF j] e have oj: "Category.Order (cats ! j) < 9999" by simp
    have so: "sorted_wrt (\<lambda>a b. Category.Order a \<le> Category.Order b) cats"
      using sc by (rule sidebar_sorted)
    show ?thesis
    proof (rule ccontr)
      assume "\<not> j < i"
      then consider "i = j" | "i < j" by linarith
      then show False
      proof cases
        case 1
        with oi oj show False by simp
      next
        case 2
        from sorted_wrt_nth_less[OF so 2 j] oi oj show False by simp
      qed
    qed
  qed
  from a b show ?thesis by blast
qed

lemma late_split:
  "splitSections ''Title: a\<newline>Parent: A\<newline>---'' = Some (''Title: a\<newline>Parent: A\<newline>'', [])"
  by code_simp

lemma late_no_order: "metaDataMap_of ''Title: a\<newline>Parent: A\<newline>'' ''Order'' = None"
  by code_simp

lemma load_late: "loadMarkdownPosts (\<lambda>s. s) os_late ''./markdown'' = (posts_late, None)"
  by code_simp

lemma early_sidebar:
  "sidebarCategories posts_early [''A'', ''C'']
     [categoryOf (page ''c'' ''C'' 3), categoryOf (page ''a'' ''A'' 9999)]"
proof -
  have m: "categoriesMap_of posts_early ''A'' = Some (categoryOf (page ''a'' ''A'' 9999))"
    "categoriesMap_of posts_early ''C'' = Some (categoryOf (page ''c'' ''C'' 3))"
    by (simp_all add: categoriesMap_of_lookup posts_early_def page_def BlogPost_zero_def categoryOf_def)
  have d: "dom (categoriesMap_of posts_early) = {''A'', ''C''}"
    by (auto simp: dom_categoriesMap_of posts_early_def page_def BlogPost_zero_def)
  show ?thesis
    by (auto simp: sidebarCategories_def rangeOrder_def d rangeValues_def
        List.map_filter_simps m sortSliceResult_def lessOrder_def abc_order)
qed

theorem missing_order_defaults_to_9999_witness:
  "splitSections ''Title: a\<newline>Parent: A\<newline>---'' = Some (''Title: a\<newline>Parent: A\<newline>'', [])
   \<and> metaDataMap_of ''Title: a\<newline>Parent: A\<newline>'' ''Order'' = None
   \<and> parseMarkdownFile (\<lambda>s. s) ''Title: a\<newline>Parent: A\<newline>---'' = (page ''a'' ''A'' 9999, None)
   \<and> sidebarCategories posts_early [''A'', ''C'']
       [categoryOf (page ''c'' ''C'' 3), categoryOf (page ''a'' ''A'' 9999)]
   \<and> find (\<lambda>p. Parent p = ''A'') posts_early = Some (page ''a'' ''A'' 9999)
   \<and> find (\<lambda>p. Parent p = ''C'') posts_early = Some (page ''c'' ''C'' 3)
   \<and> (0::nat) < 1"
proof -
  let ?cs = "[categoryOf (page ''c'' ''C'' 3), categoryOf (page ''a'' ''A'' 9999)]"
  note t = missing_order_defaults_to_9999
    [of "''Title: a\<newline>Parent: A\<newline>---''" "''Title: a\<newline>Parent: A\<newline>''" "[]" "\<lambda>s. s"
        posts_early "[''A'', ''C'']" ?cs 1 0 "page ''a'' ''A'' 9999" "page ''c'' ''C'' 3"]
  have p: "parseMarkdownFile (\<lambda>s. s) ''Title: a\<newline>Parent: A\<newline>---'' = (page ''a'' ''A'' 9999, None)"
    by code_simp
  from t late_split late_no_order
  have "snd (parseMarkdownFile (\<lambda>s. s) ''Title: a\<newline>Parent: A\<newline>---'') = None \<and>
        BlogPost.Order (fst (parseMarkdownFile (\<lambda>s. s) ''Title: a\<newline>Parent: A\<newline>---'')) = 9999"
    by blast
  have fa: "find (\<lambda>p. Parent p = Name (?cs ! 1)) posts_early = Some (page ''a'' ''A'' 9999)"
    by (simp add: posts_early_def page_def BlogPost_zero_def categoryOf_def)
  have fc: "find (\<lambda>p. Parent p = Name (?cs ! 0)) posts_early = Some (page ''c'' ''C'' 3)"
    by (simp add: posts_early_def page_def BlogPost_zero_def categoryOf_def)
  have oa: "BlogPost.Order (page ''a'' ''A'' 9999) = 9999"
    and oc: "BlogPost.Order (page ''c'' ''C'' 3) < 9999"
    by (simp_all add: page_def BlogPost_zero_def)
  have len: "1 < length ?cs" "0 < length ?cs" by simp_all
  from t early_sidebar len fa oa fc oc have lt: "(0::nat) < 1" by blast
  from fa have fa': "find (\<lambda>p. Parent p = ''A'') posts_early = Some (page ''a'' ''A'' 9999)"
    by (simp add: abc_order)
  from fc have fc': "find (\<lambda>p. Parent p = ''C'') posts_early = Some (page ''c'' ''C'' 3)"
    by (simp add: abc_order)
  from late_split late_no_order p early_sidebar fa' fc' lt show ?thesis by blast
qed

lemma late_map:
  "categoriesMap_of posts_late ''A'' = Some (categoryOf (page ''a'' ''A'' 9999))"
  "categoriesMap_of posts_late ''B'' = Some (categoryOf (page ''b'' ''B'' 10000))"
  by (simp_all add: categoriesMap_of_lookup posts_late_def page_def BlogPost_zero_def categoryOf_def)

lemma late_dom: "dom (categoriesMap_of posts_late) = {''A'', ''B''}"
  by (auto simp: dom_categoriesMap_of posts_late_def page_def BlogPost_zero_def)

lemma late_sidebar:
  "sidebarCategories posts_late [''A'', ''B'']
     [categoryOf (page ''a'' ''A'' 9999), categoryOf (page ''b'' ''B'' 10000)]"
  by (auto simp: sidebarCategories_def rangeOrder_def late_dom rangeValues_def
      List.map_filter_simps late_map sortSliceResult_def lessOrder_def abc_order)

text \<open>
  The claim as stated fails for an explicit rank above 9999: the document \<open>a.md\<close> has
  no \<open>Order\<close> line, \<open>b.md\<close> has \<open>Order: 10000\<close>, and the only sidebar the program can
  return puts the category of \<open>a.md\<close> first.
\<close>

theorem explicit_rank_after_default_counterexample:
  "loadMarkdownPosts (\<lambda>s. s) os_late ''./markdown'' = (posts_late, None)
   \<and> posts_late = [page ''a'' ''A'' 9999, page ''b'' ''B'' 10000]
   \<and> metaDataMap_of ''Title: a\<newline>Parent: A\<newline>'' ''Order'' = None
   \<and> loadSidebarData (\<lambda>s. s) os_late ''./markdown''
       (\<lparr>Categories = [categoryOf (page ''a'' ''A'' 9999), categoryOf (page ''b'' ''B'' 10000)]\<rparr>, None)
   \<and> \<not> sidebarCategories posts_late [''A'', ''B'']
         [categoryOf (page ''b'' ''B'' 10000), categoryOf (page ''a'' ''A'' 9999)]
   \<and> \<not> sidebarCategories posts_late [''B'', ''A'']
         [categoryOf (page ''b'' ''B'' 10000), categoryOf (page ''a'' ''A'' 9999)]"
proof -
  have 1: "loadSidebarData (\<lambda>s. s) os_late ''./markdown''
       (\<lparr>Categories = [categoryOf (page ''a'' ''A'' 9999), categoryOf (page ''b'' ''B'' 10000)]\<rparr>, None)"
    using load_late late_sidebar by (rule load_done)
  have 2: "\<not> sortSliceResult lessOrder xs
         [categoryOf (page ''b'' ''B'' 10000), categoryOf (page ''a'' ''A'' 9999)]" for xs
    by (simp add: sortSliceResult_def lessOrder_def abc_order)
  from 1 2 load_late late_no_order show ?thesis
    by (simp add: sidebarCategories_def posts_late_def)
qed

section \<open>The metadata expression and the lines of the block\<close>

lemma not_word_newline: "\<not> isWordChar (CHR 0x0A)"
  and not_word_colon: "\<not> isWordChar (CHR '':'')"
  and space_newline: "isSpaceChar (CHR 0x0A)"
  by (simp_all add: isWordChar_def isDigitASCII_def isUpperASCII_def isLowerASCII_def byte_def
      isSpaceChar_def)

lemma span_base:
  "ys = [] \<or> \<not> P (hd ys) \<Longrightarrow> takeWhile P ys = [] \<and> dropWhile P ys = ys"
  by (cases ys) auto

lemma span_stop:
  assumes "list_all P xs" and "ys = [] \<or> \<not> P (hd ys)"
  shows "takeWhile P (xs @ ys) = xs" and "dropWhile P (xs @ ys) = ys"
  using assms(1) span_base[of ys P, OF assms(2)] by (induction xs) auto

lemma span_id: "list_all P (takeWhile P xs)"
  by (auto simp: list_all_iff dest: set_takeWhileD)

lemma span_rest: "dropWhile P xs = [] \<or> \<not> P (hd (dropWhile P xs))"
  by (induction xs) auto

lemma nextLineStart_line:
  assumes "list_all notNewline l"
  shows "nextLineStart (l @ CHR 0x0A # rest) = Some rest" and "nextLineStart l = None"
proof -
  have "dropWhile notNewline (l @ CHR 0x0A # rest) = CHR 0x0A # rest"
    using span_stop(2)[OF assms, of "CHR 0x0A # rest"] by (simp add: notNewline_def)
  then show "nextLineStart (l @ CHR 0x0A # rest) = Some rest"
    by (simp add: nextLineStart_def)
  have dn: "dropWhile notNewline l = []"
    using span_stop(2)[OF assms, of "[]"] by simp
  show "nextLineStart l = None"
    unfolding nextLineStart_def dn by simp
qed

lemma metaMatchAt_parts:
  assumes k: "list_all isWordChar k" "k \<noteq> []"
    and ws: "list_all isSpaceChar ws"
    and v: "v \<noteq> []" "\<not> isSpaceChar (hd v)" "list_all notNewline v"
    and a: "after = [] \<or> hd after = CHR 0x0A"
  shows "metaMatchAt (k @ CHR '':'' # ws @ v @ after)
         = Some ([k @ CHR '':'' # ws @ v, k, v], after)"
proof -
  let ?s = "k @ CHR '':'' # ws @ v @ after"
  have 1: "takeWhile isWordChar ?s = k" "dropWhile isWordChar ?s = CHR '':'' # ws @ v @ after"
    using span_stop[OF k(1), of "CHR '':'' # ws @ v @ after"] by (simp_all add: not_word_colon)
  have hv: "hd (v @ after) = hd v" using v(1) by simp
  have 2: "takeWhile isSpaceChar (ws @ v @ after) = ws" "dropWhile isSpaceChar (ws @ v @ after) = v @ after"
    using span_stop[OF ws, of "v @ after"] v(2) hv by simp_all
  have 3: "valueStart (ws @ v @ after) = Some (ws, v @ after)"
    using 2 v(1) by (simp add: valueStart_def)
  have 4: "takeWhile notNewline (v @ after) = v" "dropWhile notNewline (v @ after) = after"
    using span_stop[OF v(3), of after] a by (auto simp: notNewline_def)
  show ?thesis
    using k(2) by (simp add: metaMatchAt_def 1 3 4)
qed

lemma lineEntry_parts:
  assumes "spec_lineEntry l = Some (k, v)"
  shows "\<exists>ws. l = k @ CHR '':'' # ws @ v \<and> list_all isWordChar k \<and> k \<noteq> [] \<and>
              list_all isSpaceChar ws \<and> v \<noteq> [] \<and> \<not> isSpaceChar (hd v)"
proof -
  from assms obtain c r where d: "dropWhile isWordChar l = c # r"
    and k: "k = takeWhile isWordChar l" "k \<noteq> []" and c: "c = CHR '':''"
    and v: "v = dropWhile isSpaceChar r" "v \<noteq> []"
    by (auto simp: spec_lineEntry_def split: list.splits if_splits)
  have l: "l = k @ CHR '':'' # r"
    using takeWhile_dropWhile_id[of isWordChar l] d k c by simp
  have r: "r = takeWhile isSpaceChar r @ v"
    using v by simp
  have "l = k @ CHR '':'' # takeWhile isSpaceChar r @ v" using l r by simp
  moreover have "list_all isWordChar k" unfolding k(1) by (rule span_id)
  moreover have "list_all isSpaceChar (takeWhile isSpaceChar r)" by (rule span_id)
  moreover have "\<not> isSpaceChar (hd v)" using v span_rest[of isSpaceChar r] by auto
  ultimately show ?thesis using k(2) v(2) by blast
qed

lemma metaMatchAt_entry:
  assumes nl: "list_all notNewline l"
    and e: "spec_lineEntry l = Some (k, v)"
    and a: "after = [] \<or> hd after = CHR 0x0A"
  shows "metaMatchAt (l @ after) = Some ([l, k, v], after)"
proof -
  from lineEntry_parts[OF e] obtain ws where
    l: "l = k @ CHR '':'' # ws @ v" and k: "list_all isWordChar k" "k \<noteq> []"
    and ws: "list_all isSpaceChar ws" and v: "v \<noteq> []" "\<not> isSpaceChar (hd v)"
    by blast
  from nl l have "list_all notNewline v" by simp
  from metaMatchAt_parts[OF k ws v this a] show ?thesis unfolding l by simp
qed

lemma metaMatchAt_no_key:
  assumes "\<not> spec_keyLine l" and a: "after = [] \<or> hd after = CHR 0x0A"
  shows "metaMatchAt (l @ after) = None"
proof -
  let ?k = "takeWhile isWordChar l"
  have aw: "after = [] \<or> \<not> isWordChar (hd after)" using a not_word_newline by auto
  show ?thesis
  proof (cases "dropWhile isWordChar l")
    case Nil
    then have "l = ?k" by (metis takeWhile_dropWhile_id append_Nil2)
    then have "list_all isWordChar l" using span_id[of isWordChar l] by metis
    from span_stop[OF this aw] have "dropWhile isWordChar (l @ after) = after" by simp
    moreover have "after = [] \<or> (\<exists>r. after = CHR 0x0A # r)" using a by (cases after) auto
    ultimately show ?thesis by (auto simp: metaMatchAt_def Let_def)
  next
    case (Cons c r)
    have l: "l = ?k @ c # r" using takeWhile_dropWhile_id[of isWordChar l] Cons by simp
    have nc: "\<not> isWordChar c" using span_rest[of isWordChar l] Cons by simp
    have "takeWhile isWordChar (?k @ (c # r @ after)) = ?k"
      "dropWhile isWordChar (?k @ (c # r @ after)) = c # r @ after"
      using span_stop[OF span_id[of isWordChar l], of "c # r @ after"] nc by simp_all
    then have 1: "takeWhile isWordChar (l @ after) = ?k"
      "dropWhile isWordChar (l @ after) = c # r @ after"
      using l by (metis append.assoc append_Cons)+
    from assms(1) Cons have "?k = [] \<or> c \<noteq> CHR '':''" by (simp add: spec_keyLine_def)
    then show ?thesis unfolding metaMatchAt_def Let_def 1 by auto
  qed
qed

lemma findAllMeta_line:
  assumes nl: "list_all notNewline l"
    and ok: "spec_keyLine l = (spec_lineEntry l \<noteq> None)"
  shows "findAllMeta (l @ CHR 0x0A # rest) =
           (case spec_lineEntry l of None \<Rightarrow> [] | Some (k, v) \<Rightarrow> [[l, k, v]]) @ findAllMeta rest"
    and "findAllMeta l = (case spec_lineEntry l of None \<Rightarrow> [] | Some (k, v) \<Rightarrow> [[l, k, v]])"
proof -
  have n1: "nextLineStart (CHR 0x0A # rest) = Some rest"
    using nextLineStart_line(1)[of "[]" rest] by simp
  have n2: "nextLineStart [] = None"
    using nextLineStart_line(2)[of "[]"] by simp
  show "findAllMeta (l @ CHR 0x0A # rest) =
           (case spec_lineEntry l of None \<Rightarrow> [] | Some (k, v) \<Rightarrow> [[l, k, v]]) @ findAllMeta rest"
  proof (cases "spec_lineEntry l")
    case None
    with ok have "\<not> spec_keyLine l" by simp
    then have "metaMatchAt (l @ CHR 0x0A # rest) = None"
      by (rule metaMatchAt_no_key) simp
    then show ?thesis
      using None nextLineStart_line(1)[OF nl, of rest]
      by (subst findAllMeta.simps) simp
  next
    case (Some e)
    obtain k v where e: "e = (k, v)" by (cases e)
    have "metaMatchAt (l @ CHR 0x0A # rest) = Some ([l, k, v], CHR 0x0A # rest)"
      using nl Some[unfolded e] by (rule metaMatchAt_entry) simp
    then show ?thesis
      using Some e n1 by (subst findAllMeta.simps) simp
  qed
  show "findAllMeta l = (case spec_lineEntry l of None \<Rightarrow> [] | Some (k, v) \<Rightarrow> [[l, k, v]])"
  proof (cases "spec_lineEntry l")
    case None
    with ok have "\<not> spec_keyLine l" by simp
    then have "metaMatchAt (l @ []) = None"
      by (rule metaMatchAt_no_key) simp
    then show ?thesis
      using None nextLineStart_line(2)[OF nl]
      by (subst findAllMeta.simps) simp
  next
    case (Some e)
    obtain k v where e: "e = (k, v)" by (cases e)
    have "metaMatchAt (l @ []) = Some ([l, k, v], [])"
      using nl Some[unfolded e] by (rule metaMatchAt_entry) simp
    then show ?thesis
      using Some e n2 by (subst findAllMeta.simps) simp
  qed
qed

lemma text_cases:
  "list_all notNewline s \<or>
   (\<exists>l rest. s = l @ CHR 0x0A # rest \<and> list_all notNewline l \<and> length rest < length s)"
proof (cases "dropWhile notNewline s")
  case Nil
  then have "s = takeWhile notNewline s" by (metis takeWhile_dropWhile_id append_Nil2)
  then have "list_all notNewline s" using span_id[of notNewline s] by metis
  then show ?thesis by simp
next
  case (Cons c rest)
  have "\<not> notNewline c" using span_rest[of notNewline s] Cons by simp
  then have c: "c = CHR 0x0A" by (simp add: notNewline_def)
  have s: "s = takeWhile notNewline s @ CHR 0x0A # rest"
    using takeWhile_dropWhile_id[of notNewline s] Cons c by simp
  then have "length s = length (takeWhile notNewline s) + Suc (length rest)"
    by (metis length_append length_Cons)
  then have "length rest < length s" by simp
  with s span_id[of notNewline s] show ?thesis by blast
qed

lemma spec_lines_line:
  assumes "list_all notNewline l"
  shows "spec_lines (l @ CHR 0x0A # rest) = l # spec_lines rest" and "spec_lines l = [l]"
proof -
  have 1: "takeWhile notNewline (l @ CHR 0x0A # rest) = l"
    "dropWhile notNewline (l @ CHR 0x0A # rest) = CHR 0x0A # rest"
    using span_stop[OF assms, of "CHR 0x0A # rest"] by (simp_all add: notNewline_def)
  show "spec_lines (l @ CHR 0x0A # rest) = l # spec_lines rest"
    by (subst spec_lines.simps) (simp add: 1)
  have 2: "dropWhile notNewline l = []"
    using span_stop(2)[OF assms, of "[]"] by simp
  show "spec_lines l = [l]"
    by (subst spec_lines.simps) (simp only: 2 list.case)
qed

lemma findAllMeta_entries:
  "keyLinesHaveValues s \<Longrightarrow>
   map (\<lambda>m. (m ! 1, m ! 2)) (findAllMeta s) = spec_lineEntries s \<and>
   list_all (\<lambda>m. length m = 3) (findAllMeta s)"
proof (induction s rule: length_induct)
  case (1 s)
  from text_cases[of s] show ?case
  proof
    assume nl: "list_all notNewline s"
    from "1.prems" have ok: "spec_keyLine s = (spec_lineEntry s \<noteq> None)"
      by (simp add: keyLinesHaveValues_def spec_lines_line(2)[OF nl])
    show ?thesis
      by (cases "spec_lineEntry s")
        (auto simp: findAllMeta_line(2)[OF nl ok] spec_lineEntries_def spec_lines_line(2)[OF nl]
          List.map_filter_simps)
  next
    assume "\<exists>l rest. s = l @ CHR 0x0A # rest \<and> list_all notNewline l \<and> length rest < length s"
    then obtain l rest where s: "s = l @ CHR 0x0A # rest" and nl: "list_all notNewline l"
      and len: "length rest < length s" by blast
    from "1.prems" have ok: "spec_keyLine l = (spec_lineEntry l \<noteq> None)"
      and kr: "keyLinesHaveValues rest"
      by (simp_all add: keyLinesHaveValues_def s spec_lines_line(1)[OF nl])
    from "1.IH" len kr have ih: "map (\<lambda>m. (m ! 1, m ! 2)) (findAllMeta rest) = spec_lineEntries rest"
      "list_all (\<lambda>m. length m = 3) (findAllMeta rest)" by blast+
    show ?thesis
      using ih unfolding s
      by (cases "spec_lineEntry l")
        (auto simp: findAllMeta_line(1)[OF nl ok] spec_lineEntries_def spec_lines_line(1)[OF nl]
          List.map_filter_simps)
  qed
qed

lemma fillMetaDataMap_map_of:
  "list_all (\<lambda>m. length m = 3) ms \<Longrightarrow>
   fillMetaDataMap ms m = m ++ map_of (rev (map (\<lambda>m. (m ! 1, m ! 2)) ms))"
proof (induction ms arbitrary: m)
  case Nil
  then show ?case by simp
next
  case (Cons a ms)
  then have "fillMetaDataMap (a # ms) m =
      m(a ! 1 \<mapsto> a ! 2) ++ map_of (rev (map (\<lambda>m. (m ! 1, m ! 2)) ms))"
    by simp
  also have "\<dots> = m ++ (map_of [(a ! 1, a ! 2)] ++ map_of (rev (map (\<lambda>m. (m ! 1, m ! 2)) ms)))"
    by (simp add: map_add_upd_left map_add_assoc[symmetric] fun_eq_iff map_add_def split: option.splits)
  also have "\<dots> = m ++ map_of (rev (map (\<lambda>m. (m ! 1, m ! 2)) (a # ms)))"
    by simp
  finally show ?case .
qed

lemma map_of_rev_last:
  "es = before @ (k, v) # after \<Longrightarrow> k \<notin> fst ` set after \<Longrightarrow> map_of (rev es) k = Some v"
  by (simp add: map_add_def map_of_eq_None_iff[THEN iffD2] split: option.splits)

lemma map_of_rev_none:
  "k \<notin> fst ` set es \<Longrightarrow> map_of (rev es) k = None"
  by (simp add: map_of_eq_None_iff)

text \<open>
  C4 (as amended). For every metadata block in which each line that begins with word
  characters and a colon has a character other than white space behind the colon,
  the matches of the metadata expression are, in order, the entries of the lines of
  that form: the key is the text before the colon, the value is the rest of the line
  without its leading white space (white space at the end of the line is kept). All
  other lines give no entry and no error. The map holds for every key the value of
  the last line with that key, and a lookup of a key without a line gives the empty
  string.
\<close>

theorem metadata_entries_line_by_line:
  assumes "keyLinesHaveValues metadata"
  shows "map (\<lambda>m. (m ! 1, m ! 2)) (findAllMeta metadata) = spec_lineEntries metadata
       \<and> metaDataMap_of metadata = map_of (rev (spec_lineEntries metadata))
       \<and> (spec_lineEntries metadata = before @ (k, v) # after \<and> k \<notin> fst ` set after \<longrightarrow>
            metaDataMap_of metadata k = Some v \<and> mapIndex (metaDataMap_of metadata) k = v)
       \<and> (k' \<notin> fst ` set (spec_lineEntries metadata) \<longrightarrow>
            metaDataMap_of metadata k' = None \<and> mapIndex (metaDataMap_of metadata) k' = [])
       \<and> fst (parseMetaData metadata) = mapIndex (metaDataMap_of metadata) ''Title''"
proof -
  from findAllMeta_entries[OF assms] have
    e: "map (\<lambda>m. (m ! 1, m ! 2)) (findAllMeta metadata) = spec_lineEntries metadata"
    and l3: "list_all (\<lambda>m. length m = 3) (findAllMeta metadata)" by blast+
  have m: "metaDataMap_of metadata = map_of (rev (spec_lineEntries metadata))"
    unfolding metaDataMap_of_def fillMetaDataMap_map_of[OF l3] e by simp
  have a: "metaDataMap_of metadata k = Some v \<and> mapIndex (metaDataMap_of metadata) k = v"
    if "spec_lineEntries metadata = before @ (k, v) # after" "k \<notin> fst ` set after"
    using map_of_rev_last[OF that] by (simp add: m mapIndex_def)
  have b: "metaDataMap_of metadata k' = None \<and> mapIndex (metaDataMap_of metadata) k' = []"
    if "k' \<notin> fst ` set (spec_lineEntries metadata)"
    using map_of_rev_none[OF that] by (simp add: m mapIndex_def)
  have c: "fst (parseMetaData metadata) = mapIndex (metaDataMap_of metadata) ''Title''"
    by (simp add: parseMetaData_def Let_def)
  from e m a b c show ?thesis by blast
qed

theorem metadata_entries_line_by_line_witness:
  "keyLinesHaveValues ''Title: Hello\<newline>not a key line\<newline>Title: World  \<newline>Slug: s\<newline>''
   \<and> spec_lineEntries ''Title: Hello\<newline>not a key line\<newline>Title: World  \<newline>Slug: s\<newline>''
       = [(''Title'', ''Hello'')] @ (''Title'', ''World  '') # [(''Slug'', ''s'')]
   \<and> map (\<lambda>m. (m ! 1, m ! 2))
         (findAllMeta ''Title: Hello\<newline>not a key line\<newline>Title: World  \<newline>Slug: s\<newline>'')
       = [(''Title'', ''Hello''), (''Title'', ''World  ''), (''Slug'', ''s'')]
   \<and> metaDataMap_of ''Title: Hello\<newline>not a key line\<newline>Title: World  \<newline>Slug: s\<newline>'' ''Title''
       = Some ''World  ''
   \<and> metaDataMap_of ''Title: Hello\<newline>not a key line\<newline>Title: World  \<newline>Slug: s\<newline>'' ''Order''
       = None"
proof -
  let ?md = "''Title: Hello\<newline>not a key line\<newline>Title: World  \<newline>Slug: s\<newline>''"
  have h: "keyLinesHaveValues ?md" by code_simp
  have e: "spec_lineEntries ?md = [(''Title'', ''Hello'')] @ (''Title'', ''World  '') # [(''Slug'', ''s'')]"
    by code_simp
  have n1: "''Title'' \<notin> fst ` set [(''Slug'', ''s'')]" by simp
  have n2: "''Order'' \<notin> fst ` set (spec_lineEntries ?md)" unfolding e by simp
  note t = metadata_entries_line_by_line
    [OF h, of "[(''Title'', ''Hello'')]" "''Title''" "''World  ''" "[(''Slug'', ''s'')]" "''Order''"]
  from t e n1 have 1: "metaDataMap_of ?md ''Title'' = Some ''World  ''" by blast
  from t n2 have 2: "metaDataMap_of ?md ''Order'' = None" by blast
  from t e have 3: "map (\<lambda>m. (m ! 1, m ! 2)) (findAllMeta ?md)
       = [(''Title'', ''Hello''), (''Title'', ''World  ''), (''Slug'', ''s'')]"
    by simp
  from h e 1 2 3 show ?thesis by blast
qed

text \<open>
  The claim as stated fails on the block with the lines \<open>Title: X  \<close>, \<open>Slug:\<close> and
  \<open>Order: 3\<close>: the value of \<open>Title\<close> keeps the two spaces at its end, so it is not the
  trimmed remainder of the line; and since \<open>\s*\<close> also matches line feeds, the match
  for \<open>Slug\<close> runs into the next line, whose text becomes the value of \<open>Slug\<close>, while
  the line \<open>Order: 3\<close> gives no entry of its own.
\<close>

theorem metadata_value_counterexample:
  "spec_lines ''Title: X  \<newline>Slug:\<newline>Order: 3'' = [''Title: X  '', ''Slug:'', ''Order: 3'']
   \<and> findAllMeta ''Title: X  \<newline>Slug:\<newline>Order: 3''
       = [[''Title: X  '', ''Title'', ''X  ''], [''Slug:\<newline>Order: 3'', ''Slug'', ''Order: 3'']]
   \<and> metaDataMap_of ''Title: X  \<newline>Slug:\<newline>Order: 3'' ''Title'' = Some ''X  ''
   \<and> metaDataMap_of ''Title: X  \<newline>Slug:\<newline>Order: 3'' ''Slug'' = Some ''Order: 3''
   \<and> metaDataMap_of ''Title: X  \<newline>Slug:\<newline>Order: 3'' ''Order'' = None"
  by code_simp

end
